theory Spec2Isabelle
  imports Main "HOL-Library.AList"
begin

section \<open>Shared JavaScript notions\<close>

text \<open>
  Errors are JavaScript objects of any shape. The sources read one property of them,
  \<^verbatim>\<open>err.authExpired\<close>; the text of the error stands for everything else.
\<close>

record js_error =
  errText :: string
  authExpired :: bool

definition TypeError :: js_error where
  "TypeError = \<lparr>errText = ''TypeError'', authExpired = False\<rparr>"

text \<open>
  A settled promise is a sum: \<open>Inl e\<close> is a rejection with reason \<open>e\<close>, \<open>Inr v\<close> a
  fulfilment with value \<open>v\<close>. \<open>then_p\<close> and \<open>catch_p\<close> are \<^verbatim>\<open>.then(f)\<close> and
  \<^verbatim>\<open>.catch(h)\<close> for handlers that themselves return or throw at once.
\<close>

definition then_p :: "js_error + 'a \<Rightarrow> ('a \<Rightarrow> js_error + 'b) \<Rightarrow> js_error + 'b" where
  "then_p r f = (case r of Inl e \<Rightarrow> Inl e | Inr v \<Rightarrow> f v)"

definition catch_p :: "js_error + 'a \<Rightarrow> (js_error \<Rightarrow> js_error + 'a) \<Rightarrow> js_error + 'a" where
  "catch_p r h = (case r of Inl e \<Rightarrow> h e | Inr v \<Rightarrow> Inr v)"

section \<open>The app auth session (src/src/sessions/app-auth-session.ts)\<close>

subsection \<open>Data\<close>

text \<open>
  \<^verbatim>\<open>TokenInfo\<close> is \<^verbatim>\<open>any\<close> in the source, which reads its \<^verbatim>\<open>accessToken\<close> only; the
  expiry is the field the specification's data model gives it. Token request options are
  opaque and optional.
\<close>

record token_info =
  accessToken :: string
  expiresAt :: int

type_synonym token_request_options = "string option"

record config =
  expiredBufferMS :: int
  staleBufferMS :: int

text \<open>The calls the session makes on its collaborators, in the order it makes them.\<close>

datatype call =
    GetTokensJWTGrant string string token_request_options
  | ReadAsync
  | WriteAsync token_info
  | ClearAsync
  | RevokeTokens "string option" token_request_options

text \<open>
  A refresh chain is the promise built in \<^verbatim>\<open>_refreshAppAuthAccessToken\<close>: first the grant is
  awaited, then (with a token store) the write of the granted token.
\<close>

datatype phase = Granting | Writing token_info

text \<open>What a caller of \<^verbatim>\<open>getAccessToken\<close> holds when the call returns.\<close>

datatype reply =
    Resolved string         \<comment> \<open>\<^verbatim>\<open>Promise.resolve(accessToken)\<close>, or the value returned in a \<^verbatim>\<open>then\<close>\<close>
  | Refresh nat             \<comment> \<open>the promise object stored in \<^verbatim>\<open>_refreshPromise\<close>, by its serial number\<close>
  | AwaitingRead            \<comment> \<open>the promise chained on \<^verbatim>\<open>readAsync()\<close>, not yet settled\<close>
  | Failed js_error         \<comment> \<open>a rejection\<close>

text \<open>
  The fields of the class, followed by the bookkeeping of the run-time around it:
  promise objects are told apart by a serial number, \<open>inFlight\<close> lists the refresh
  chains that have not completed, \<open>settled\<close> the outcome of those that have, \<open>reads\<close>
  what the pending \<^verbatim>\<open>readAsync().then\<close> callbacks captured (the expiration buffer and the
  options of their call), and \<open>replies\<close> what each caller got.
\<close>

record session =
  entityType :: string
  entityId :: string
  config :: config
  tokenStore :: bool
  tokenInfo :: "token_info option"
  refreshPromise :: "nat option"
  calls :: "call list"
  promiseCount :: nat
  inFlight :: "(nat \<times> phase) list"
  settled :: "(nat \<times> (js_error + string)) list"
  reads :: "(int \<times> token_request_options) list"
  replies :: "reply list"

definition new_session :: "string \<Rightarrow> string \<Rightarrow> config \<Rightarrow> bool \<Rightarrow> session" where
  "new_session ty ident cfg store =
     \<lparr>entityType = ty, entityId = ident, config = cfg, tokenStore = store,
      tokenInfo = None, refreshPromise = None,
      calls = [], promiseCount = 0, inFlight = [], settled = [], reads = [], replies = []\<rparr>"


text \<open>
  Modelled from the spec: \<^verbatim>\<open>errors.unwrapAndThrow\<close> of \<^verbatim>\<open>../util/errors\<close> is not among the
  sources. It never returns: it throws the store's error that it is given (the
  specification: "if clearing itself fails, that secondary error is surfaced instead").
\<close>

definition unwrapAndThrow :: "js_error \<Rightarrow> js_error + unit" where
  "unwrapAndThrow e = Inl e"

subsection \<open>Operations\<close>

text \<open>
  \<^verbatim>\<open>_refreshAppAuthAccessToken\<close>, the part that runs at the call: with no promise stored, the
  grant is requested and the new chain is stored; either way the stored promise is returned.
\<close>

definition refreshAppAuthAccessToken :: "token_request_options \<Rightarrow> session \<Rightarrow> session \<times> nat" where
  "refreshAppAuthAccessToken opts s =
     (case refreshPromise s of
        None \<Rightarrow>
          (let p = promiseCount s in
           (s\<lparr>refreshPromise := Some p,
              promiseCount := Suc p,
              calls := calls s @ [GetTokensJWTGrant (entityType s) (entityId s) opts],
              inFlight := inFlight s @ [(p, Granting)]\<rparr>, p))
      | Some p \<Rightarrow> (s, p))"

text \<open>The \<^verbatim>\<open>finally\<close> callback of chain \<open>p\<close>, which settles with \<open>r\<close>.\<close>

definition refresh_finally :: "nat \<Rightarrow> js_error + string \<Rightarrow> session \<Rightarrow> session" where
  "refresh_finally p r s =
     s\<lparr>refreshPromise := None,
       inFlight := filter (\<lambda>c. fst c \<noteq> p) (inFlight s),
       settled := settled s @ [(p, r)]\<rparr>"

text \<open>The \<^verbatim>\<open>then\<close> callback of the grant of chain \<open>p\<close>.\<close>

definition refresh_then :: "nat \<Rightarrow> token_info \<Rightarrow> session \<Rightarrow> session" where
  "refresh_then p ti s =
     (let s1 = s\<lparr>tokenInfo := Some ti\<rparr> in
      if tokenStore s1
      then s1\<lparr>calls := calls s1 @ [WriteAsync ti],
              inFlight := map (\<lambda>c. if fst c = p then (p, Writing ti) else c) (inFlight s1)\<rparr>
      else refresh_finally p (Inr (accessToken ti)) s1)"

definition expirationBuffer :: "session \<Rightarrow> int" where
  "expirationBuffer s = max (expiredBufferMS (config s)) (staleBufferMS (config s))"

definition refresh_reply :: "token_request_options \<Rightarrow> session \<Rightarrow> session \<times> reply" where
  "refresh_reply opts s = (case refreshAppAuthAccessToken opts s of (s', p) \<Rightarrow> (s', Refresh p))"

text \<open>\<^verbatim>\<open>getAccessToken\<close>, the part that runs at the call.\<close>

definition getAccessToken ::
  "(int \<Rightarrow> token_info option \<Rightarrow> int \<Rightarrow> bool) \<Rightarrow> int \<Rightarrow> token_request_options \<Rightarrow> session
     \<Rightarrow> session \<times> reply" where
  "getAccessToken valid now opts s =
     (if tokenInfo s = None \<and> tokenStore s
      then (s\<lparr>calls := calls s @ [ReadAsync],
              reads := reads s @ [(expirationBuffer s, opts)]\<rparr>, AwaitingRead)
      else
        (case tokenInfo s of
           None \<Rightarrow> refresh_reply opts s
         | Some t \<Rightarrow>
             if \<not> valid now (Some t) (expirationBuffer s)
             then refresh_reply opts s
             else (s, Resolved (accessToken t))))"

text \<open>
  The callback of \<^verbatim>\<open>readAsync().then\<close> in \<^verbatim>\<open>getAccessToken\<close>, given what it captured at
  the call and what the store returned. Reading \<^verbatim>\<open>accessToken\<close> of an absent token
  that the check accepted would throw.
\<close>

definition getAccessToken_read ::
  "(int \<Rightarrow> token_info option \<Rightarrow> int \<Rightarrow> bool) \<Rightarrow> int \<Rightarrow> int \<times> token_request_options
     \<Rightarrow> token_info option \<Rightarrow> session \<Rightarrow> session \<times> reply" where
  "getAccessToken_read valid now captured stored s =
     (if \<not> valid now stored (fst captured)
      then refresh_reply (snd captured) s
      else
        (case stored of
           None \<Rightarrow> (s\<lparr>tokenInfo := None\<rparr>, Failed TypeError)
         | Some t \<Rightarrow> (s\<lparr>tokenInfo := Some t\<rparr>, Resolved (accessToken t))))"

text \<open>
  \<^verbatim>\<open>revokeTokens\<close>: the token manager's \<^verbatim>\<open>revokeTokens\<close> is a parameter, and its promise
  is what the method returns.
\<close>

definition revokeTokens ::
  "(string option \<Rightarrow> token_request_options \<Rightarrow> 'r) \<Rightarrow> token_request_options \<Rightarrow> session
     \<Rightarrow> session \<times> 'r" where
  "revokeTokens manager_revoke opts s =
     (let access = map_option accessToken (tokenInfo s) in
      (s\<lparr>tokenInfo := None, calls := calls s @ [RevokeTokens access opts]\<rparr>,
       manager_revoke access opts))"

text \<open>
  \<^verbatim>\<open>handleExpiredTokensError\<close>: \<open>cleared\<close> is how the store's \<^verbatim>\<open>clearAsync()\<close> settles,
  read only when there is a store. The result is how the returned promise settles.
\<close>

definition handleExpiredTokensError ::
  "js_error + unit \<Rightarrow> js_error \<Rightarrow> session \<Rightarrow> session \<times> (js_error + js_error)" where
  "handleExpiredTokensError cleared err s =
     (if \<not> tokenStore s then (s, Inr err)
      else (s\<lparr>calls := calls s @ [ClearAsync]\<rparr>,
            then_p (catch_p cleared unwrapAndThrow) (\<lambda>_. Inl err)))"

subsection \<open>The session among its callers and collaborators\<close>

text \<open>
  JavaScript runs one callback at a time. What interleaves are the callers of
  \<^verbatim>\<open>getAccessToken\<close> and the answers of the store and of the token manager; each is an
  event, and an answer that nobody waits for does nothing.
\<close>

datatype event =
    CallGetAccessToken int token_request_options
  | ReadSettled int nat "js_error + token_info option"
  | GrantSettled nat "js_error + token_info"
  | WriteSettled nat "js_error + unit"

definition add_reply :: "session \<times> reply \<Rightarrow> session" where
  "add_reply sr = (case sr of (s, r) \<Rightarrow> s\<lparr>replies := replies s @ [r]\<rparr>)"

definition drop_read :: "nat \<Rightarrow> session \<Rightarrow> session" where
  "drop_read k s = s\<lparr>reads := take k (reads s) @ drop (Suc k) (reads s)\<rparr>"

fun step :: "(int \<Rightarrow> token_info option \<Rightarrow> int \<Rightarrow> bool) \<Rightarrow> session \<Rightarrow> event \<Rightarrow> session" where
  "step valid s (CallGetAccessToken now opts) = add_reply (getAccessToken valid now opts s)"
| "step valid s (ReadSettled now k r) =
     (if k < length (reads s)
      then (case r of
              Inl e \<Rightarrow> add_reply (drop_read k s, Failed e)
            | Inr stored \<Rightarrow>
                add_reply (getAccessToken_read valid now (reads s ! k) stored (drop_read k s)))
      else s)"
| "step valid s (GrantSettled p r) =
     (if (p, Granting) \<in> set (inFlight s)
      then (case r of
              Inl e \<Rightarrow> refresh_finally p (Inl e) s
            | Inr ti \<Rightarrow> refresh_then p ti s)
      else s)"
| "step valid s (WriteSettled p r) =
     (case map_of (inFlight s) p of
        Some (Writing ti) \<Rightarrow>
          (case r of
             Inl e \<Rightarrow> refresh_finally p (Inl e) s
           | Inr _ \<Rightarrow> refresh_finally p (Inr (accessToken ti)) s)
      | _ \<Rightarrow> s)"

definition run :: "(int \<Rightarrow> token_info option \<Rightarrow> int \<Rightarrow> bool) \<Rightarrow> session \<Rightarrow> event list \<Rightarrow> session" where
  "run valid s es = foldl (step valid) s es"


definition grants :: "session \<Rightarrow> call list" where
  "grants s = filter (\<lambda>c. case c of GetTokensJWTGrant _ _ _ \<Rightarrow> True | _ \<Rightarrow> False) (calls s)"

definition refresh_replies :: "session \<Rightarrow> nat list" where
  "refresh_replies s = concat (map (\<lambda>r. case r of Refresh p \<Rightarrow> [p] | _ \<Rightarrow> []) (replies s))"

text \<open>
  The marker and the chains in flight agree: no marker and no chain, or one chain, the
  marked one.
\<close>

definition single_flight :: "session \<Rightarrow> bool" where
  "single_flight s =
     (map fst (inFlight s) = (case refreshPromise s of None \<Rightarrow> [] | Some p \<Rightarrow> [p]))"


section \<open>The event stream (src/unnamed/part_001)\<close>

subsection \<open>Data\<close>

text \<open>
  A stream position comes from the API as a string or as a number; the source tests it
  for truthiness, which fails for the empty string and for zero.
\<close>

datatype cursor = Str string | Num int

definition truthy :: "cursor \<Rightarrow> bool" where
  "truthy c = (case c of Str t \<Rightarrow> t \<noteq> [] | Num n \<Rightarrow> n \<noteq> 0)"

record stream_options =
  retryDelay :: int
  deduplicationFilterSize :: int
  fetchInterval :: int

definition DEFAULT_OPTIONS :: stream_options where
  "DEFAULT_OPTIONS = \<lparr>retryDelay = 1000, deduplicationFilterSize = 5000, fetchInterval = 1000\<rparr>"

record long_poll_info =
  max_retries :: int
  retry_timeout :: int
  url :: string

text \<open>An event of the API: its id, and the rest of it as text.\<close>

record box_event =
  event_id :: string
  event_body :: string

text \<open>The answer of a long poll, and a page of events; every property may be missing.\<close>

record poll_data =
  message :: "string option"

record events_page =
  entries :: "box_event list option"
  next_stream_position :: "cursor option"

text \<open>
  A query object, in the order of its keys: what \<^verbatim>\<open>qs.parse\<close> yields are strings and
  lists of strings, and the stream adds its position. \<^verbatim>\<open>qs.parse\<close> itself belongs to
  Node's \<^verbatim>\<open>querystring\<close>; the functions that need it take it as the parameter \<open>parse\<close>.
\<close>

datatype qs_value = Single string | Multi "string list" | Position cursor

type_synonym query = "(string \<times> qs_value) list"

text \<open>The rate limiter: \<^verbatim>\<open>Promise.resolve()\<close>, or \<^verbatim>\<open>Promise.delay(ms)\<close>.\<close>

datatype limiter = Ready | Delay int

text \<open>
  The requests the stream sends. Each is the head of a chain \<^verbatim>\<open>request.then(f).catch(g)\<close>,
  and the kind of the request names the chain as well.
\<close>

datatype request = Discovery | LongPoll | EventsGet

text \<open>What the stream does to the world around it, in the order it does it.\<close>

datatype action =
    GetLongPollInfoRequest                 \<comment> \<open>\<^verbatim>\<open>client.events.getLongPollInfo()\<close>\<close>
  | LongPollRequest string query int       \<comment> \<open>\<^verbatim>\<open>client.get(url, {qs, timeout})\<close>\<close>
  | EventsGetRequest limiter cursor int    \<comment> \<open>after the limiter, \<^verbatim>\<open>client.events.get({stream_position, limit})\<close>\<close>
  | EmitError js_error                     \<comment> \<open>\<^verbatim>\<open>emit('error', err)\<close>, delivered to a listener\<close>
  | Push box_event
  | Pause
  | Resume
  | SetTimeout nat int                     \<comment> \<open>the handle \<^verbatim>\<open>setTimeout\<close> returns, and the delay\<close>
  | ClearTimeout "nat option"
  | NextTickEmitClose                      \<comment> \<open>\<^verbatim>\<open>process.nextTick(() => emit('close'))\<close>\<close>
  | Unhandled js_error                     \<comment> \<open>a rejection that no handler of the stream takes\<close>

text \<open>What a method or a callback hands back.\<close>

datatype outcome =
    Settled bool        \<comment> \<open>\<^verbatim>\<open>Promise.resolve(b)\<close>, or \<open>b\<close> returned by a callback\<close>
  | Pending             \<comment> \<open>a promise chained on a request that is out\<close>
  | Threw js_error      \<comment> \<open>an exception\<close>

text \<open>
  The fields of the class, then what the stream has from the \<^verbatim>\<open>Readable\<close> it extends, then
  the run-time around it.
  \<^item> \<open>dedupHash\<close> is an object used as a set; its keys are kept in insertion order. Event
    ids are taken to be strings that are not names of properties that every object
    inherits.
  \<^item> \<open>destroyed\<close> and \<open>paused\<close> are the stream's flags of those names. \<open>reading\<close> holds from
    a call of \<^verbatim>\<open>_read\<close> until data is pushed: \<^verbatim>\<open>_read\<close> "will not be called again until
    data is pushed into the stream". \<open>errorListeners\<close> holds when a listener for
    \<^verbatim>\<open>'error'\<close> is attached. \<open>readableDestroy\<close> holds when \<^verbatim>\<open>Readable.prototype.destroy\<close>
    is a function, which decides whose \<^verbatim>\<open>destroy\<close> the stream has.
  \<^item> \<open>timers\<close> are the timers that are armed, by handle. \<open>pending\<close> are the requests that
    are out, each with the chains around its own, innermost first: the chains whose
    callback returned the promise of this request, and so get its rejection. \<open>actions\<close>
    are the actions so far.
\<close>

record event_stream =
  streamPosition :: cursor
  longPollInfo :: "long_poll_info option"
  longPollRetries :: int
  dedupHash :: "(string \<times> bool) list"
  rateLimiter :: limiter
  options :: stream_options
  retryTimer :: "nat option"
  destroyed :: bool
  paused :: bool
  reading :: bool
  errorListeners :: bool
  readableDestroy :: bool
  timerCount :: nat
  timers :: "nat list"
  pending :: "(request \<times> request list) list"
  actions :: "action list"

text \<open>The constructor, in a run-time whose \<^verbatim>\<open>Readable\<close> has a \<^verbatim>\<open>destroy\<close> or has none.\<close>

definition new_stream :: "bool \<Rightarrow> cursor \<Rightarrow> stream_options \<Rightarrow> event_stream" where
  "new_stream native position opts =
     \<lparr>streamPosition = position, longPollInfo = None, longPollRetries = 0, dedupHash = [],
      rateLimiter = Ready, options = opts, retryTimer = None, destroyed = False, paused = False,
      reading = False, errorListeners = False, readableDestroy = native,
      timerCount = 0, timers = [], pending = [], actions = []\<rparr>"

subsection \<open>Methods\<close>

definition act :: "action \<Rightarrow> event_stream \<Rightarrow> event_stream" where
  "act a s = s\<lparr>actions := actions s @ [a]\<rparr>"

text \<open>
  Sending a request from a place whose promise the chains \<open>around\<close> are waiting for
  (none, when the promise is dropped).
\<close>

definition send :: "request \<Rightarrow> request list \<Rightarrow> action \<Rightarrow> event_stream \<Rightarrow> event_stream" where
  "send r around a s = s\<lparr>pending := pending s @ [(r, around)], actions := actions s @ [a]\<rparr>"

text \<open>\<^verbatim>\<open>getLongPollInfo\<close>, up to the request.\<close>

definition getLongPollInfo :: "request list \<Rightarrow> event_stream \<Rightarrow> event_stream \<times> outcome" where
  "getLongPollInfo around s =
     (if destroyed s then (s, Settled False)
      else (send Discovery around GetLongPollInfoRequest s, Pending))"

text \<open>\<^verbatim>\<open>retryPollInfo\<close>: the timer, when it fires, calls \<^verbatim>\<open>getLongPollInfo\<close>.\<close>

definition retryPollInfo :: "event_stream \<Rightarrow> event_stream" where
  "retryPollInfo s =
     (if \<not> destroyed s
      then s\<lparr>retryTimer := Some (timerCount s),
             timers := timers s @ [timerCount s],
             timerCount := Suc (timerCount s),
             actions := actions s @ [SetTimeout (timerCount s) (retryDelay (options s))]\<rparr>
      else s)"

text \<open>\<^verbatim>\<open>String.prototype.indexOf\<close> for one character: the first index, or -1.\<close>

definition indexOf :: "string \<Rightarrow> char \<Rightarrow> int" where
  "indexOf t c = (if c \<in> set t then int (length (takeWhile (\<lambda>x. x \<noteq> c) t)) else - 1)"

text \<open>
  \<^verbatim>\<open>doLongPoll\<close>, up to the request. Reading \<^verbatim>\<open>max_retries\<close> of long poll info that is
  not there throws.
\<close>

definition doLongPoll ::
  "(string \<Rightarrow> query) \<Rightarrow> request list \<Rightarrow> event_stream \<Rightarrow> event_stream \<times> outcome" where
  "doLongPoll parse around s =
     (if destroyed s then (s, Settled False)
      else
        (case longPollInfo s of
           None \<Rightarrow> (s, Threw TypeError)
         | Some info \<Rightarrow>
             if longPollRetries s > max_retries info then getLongPollInfo around s
             else
               (let qsDelim = indexOf (url info) CHR ''?'';
                    query = (if qsDelim > 0 then parse (drop (nat (qsDelim + 1)) (url info)) else []);
                    url' = (if qsDelim > 0 then take (nat qsDelim) (url info) else url info);
                    query' = AList.update ''stream_position'' (Position (streamPosition s)) query;
                    timeout = retry_timeout info * 1000
                in (send LongPoll around (LongPollRequest url' query' timeout)
                      (s\<lparr>longPollRetries := longPollRetries s + 1\<rparr>), Pending))))"

text \<open>\<^verbatim>\<open>fetchEvents\<close>, up to the request, which waits for the rate limiter.\<close>

definition fetchEvents :: "request list \<Rightarrow> event_stream \<Rightarrow> event_stream \<times> outcome" where
  "fetchEvents around s =
     (if destroyed s then (s, Settled False)
      else (send EventsGet around (EventsGetRequest (rateLimiter s) (streamPosition s) 500) s,
            Pending))"

text \<open>
  \<^verbatim>\<open>emit('error', err)\<close>: with a listener attached the error is delivered and \<^verbatim>\<open>emit\<close>
  returns; with none, \<^verbatim>\<open>emit\<close> throws the error. The second component is what was thrown.
\<close>

definition emit_error :: "js_error \<Rightarrow> event_stream \<Rightarrow> event_stream \<times> js_error option" where
  "emit_error err s = (if errorListeners s then (act (EmitError err) s, None) else (s, Some err))"

text \<open>
  The callbacks of \<^verbatim>\<open>getLongPollInfo\<close>. The first runs with the chains that wait for what
  it returns, its own chain first. The second returns what it threw, if it threw.
\<close>

definition getLongPollInfo_then ::
  "(string \<Rightarrow> query) \<Rightarrow> request list \<Rightarrow> event_stream \<Rightarrow> long_poll_info
     \<Rightarrow> event_stream \<times> outcome" where
  "getLongPollInfo_then parse around s info =
     doLongPoll parse around (s\<lparr>longPollInfo := Some info, longPollRetries := 0\<rparr>)"

definition getLongPollInfo_catch :: "event_stream \<Rightarrow> js_error \<Rightarrow> event_stream \<times> js_error option" where
  "getLongPollInfo_catch s err =
     (case emit_error err s of
        (s1, Some thrown) \<Rightarrow> (s1, Some thrown)
      | (s1, None) \<Rightarrow> (if \<not> authExpired err then retryPollInfo s1 else s1, None))"

text \<open>The callbacks of \<^verbatim>\<open>doLongPoll\<close>; the second one ignores the error it is given.\<close>

definition doLongPoll_then ::
  "(string \<Rightarrow> query) \<Rightarrow> request list \<Rightarrow> event_stream \<Rightarrow> poll_data
     \<Rightarrow> event_stream \<times> outcome" where
  "doLongPoll_then parse around s data =
     (if destroyed s then (s, Settled False)
      else if message data = Some ''reconnect'' then getLongPollInfo around s
      else if message data \<noteq> Some ''new_change'' then doLongPoll parse around s
      else fetchEvents around s)"

definition doLongPoll_catch :: "event_stream \<Rightarrow> js_error \<Rightarrow> event_stream \<times> js_error option" where
  "doLongPoll_catch s err = (retryPollInfo s, None)"

text \<open>\<^verbatim>\<open>this._dedupHash[id]\<close>, as a condition.\<close>

definition seen :: "(string \<times> bool) list \<Rightarrow> string \<Rightarrow> bool" where
  "seen h k = (case map_of h k of Some b \<Rightarrow> b | None \<Rightarrow> False)"

text \<open>
  One round of the \<^verbatim>\<open>forEach\<close> that pushes the new events. With data pushed, the
  \<^verbatim>\<open>Readable\<close> may call \<^verbatim>\<open>_read\<close> again.
\<close>

definition push_event :: "event_stream \<Rightarrow> box_event \<Rightarrow> event_stream" where
  "push_event s e =
     act (Push e)
       (s\<lparr>dedupHash := AList.update (event_id e) True (dedupHash s), reading := False\<rparr>)"

text \<open>\<^verbatim>\<open>cleanupDedupFilter\<close>: the keys are listed first, then visited one by one.\<close>

definition cleanupDedupFilter :: "box_event list \<Rightarrow> event_stream \<Rightarrow> event_stream" where
  "cleanupDedupFilter latestEvents s =
     (let dedupIDs = map fst (dedupHash s) in
      foldl (\<lambda>s' eventID.
               let isEventCleared = (find (\<lambda>e. event_id e = eventID) latestEvents = None) in
               if isEventCleared then s'\<lparr>dedupHash := AList.delete eventID (dedupHash s')\<rparr> else s')
        s dedupIDs)"

text \<open>The callbacks of \<^verbatim>\<open>fetchEvents\<close>.\<close>

definition fetchEvents_then ::
  "(string \<Rightarrow> query) \<Rightarrow> request list \<Rightarrow> event_stream \<Rightarrow> events_page
     \<Rightarrow> event_stream \<times> outcome" where
  "fetchEvents_then parse around s events =
     (let s1 = s\<lparr>rateLimiter := Delay (fetchInterval (options s))\<rparr> in
      case entries events of
        None \<Rightarrow> doLongPoll parse around s1
      | Some es \<Rightarrow>
          (case next_stream_position events of
             None \<Rightarrow> doLongPoll parse around s1
           | Some next \<Rightarrow>
               if \<not> truthy next then doLongPoll parse around s1
               else
                 (let s2 = s1\<lparr>streamPosition := next\<rparr>;
                      newEvents = filter (\<lambda>e. \<not> seen (dedupHash s2) (event_id e)) es
                  in if length newEvents = 0 then doLongPoll parse around s2
                     else
                       (let wasPaused = paused s2;
                            s3 = act Pause (s2\<lparr>paused := True\<rparr>);
                            s4 = foldl push_event s3 newEvents;
                            s5 = (if \<not> wasPaused then act Resume (s4\<lparr>paused := False\<rparr>) else s4);
                            s6 = (if int (length (map fst (dedupHash s5)))
                                       \<ge> deduplicationFilterSize (options s5)
                                  then cleanupDedupFilter es s5 else s5)
                        in (s6, Settled True)))))"

definition fetchEvents_catch :: "event_stream \<Rightarrow> js_error \<Rightarrow> event_stream \<times> js_error option" where
  "fetchEvents_catch s err =
     (case emit_error err s of
        (s1, Some thrown) \<Rightarrow> (s1, Some thrown)
      | (s1, None) \<Rightarrow> (retryPollInfo s1, None))"

text \<open>
  A rejection on its way out: the \<^verbatim>\<open>catch\<close> callback of the innermost chain takes it; if
  that callback throws, its chain rejects and the next chain takes what was thrown. What
  no chain takes is an unhandled rejection.
\<close>

fun catch_of :: "request \<Rightarrow> event_stream \<Rightarrow> js_error \<Rightarrow> event_stream \<times> js_error option" where
  "catch_of Discovery = getLongPollInfo_catch"
| "catch_of LongPoll = doLongPoll_catch"
| "catch_of EventsGet = fetchEvents_catch"

fun reject :: "request list \<Rightarrow> event_stream \<Rightarrow> js_error \<Rightarrow> event_stream" where
  "reject [] s e = act (Unhandled e) s"
| "reject (c # around) s e =
     (case catch_of c s e of
        (s', None) \<Rightarrow> s'
      | (s', Some thrown) \<Rightarrow> reject around s' thrown)"

text \<open>
  A chain \<^verbatim>\<open>request.then(f).catch(g)\<close> when its request settles. \<open>f\<close> runs on a
  fulfilment, with its own chain first among those that wait for what it returns; the
  rejection of the request, or what \<open>f\<close> threw, in the state \<open>f\<close> left, goes the way of
  rejections.
\<close>

definition settle ::
  "(request list \<Rightarrow> event_stream \<Rightarrow> 'a \<Rightarrow> event_stream \<times> outcome) \<Rightarrow> request \<Rightarrow> request list
     \<Rightarrow> event_stream \<Rightarrow> js_error + 'a \<Rightarrow> event_stream" where
  "settle f c around s r =
     (case r of
        Inl err \<Rightarrow> reject (c # around) s err
      | Inr v \<Rightarrow>
          (case f (c # around) s v of
             (s', Threw e) \<Rightarrow> reject (c # around) s' e
           | (s', _) \<Rightarrow> s'))"

text \<open>
  \<^verbatim>\<open>_read\<close> and \<^verbatim>\<open>_destroy\<close> (a leading underscore is not a name here). \<^verbatim>\<open>_read\<close> drops the
  promise it gets.
\<close>

definition internal_read :: "event_stream \<Rightarrow> event_stream" where
  "internal_read s = fst (getLongPollInfo [] s)"

definition internal_destroy :: "event_stream \<Rightarrow> event_stream" where
  "internal_destroy s =
     (act (ClearTimeout (retryTimer s)) s)
       \<lparr>timers := filter (\<lambda>h. Some h \<noteq> retryTimer s) (timers s), retryTimer := None\<rparr>"

text \<open>
  The \<^verbatim>\<open>destroy\<close> that the file installs when \<^verbatim>\<open>Readable.prototype.destroy\<close> is not a
  function.
\<close>

definition destroy_polyfill :: "event_stream \<Rightarrow> event_stream" where
  "destroy_polyfill s =
     (if \<not> destroyed s
      then internal_destroy ((act NextTickEmitClose s)\<lparr>destroyed := True\<rparr>)
      else s)"

text \<open>
  \<^verbatim>\<open>Readable.prototype.destroy\<close>, where it is a function, is Node's and not the file's. Of
  it the stream sees what the file says of it: \<^verbatim>\<open>_destroy\<close> is "called by stream consumers
  to effectively stop polling via the public \<^verbatim>\<open>destroy()\<close>", and the file's own
  \<^verbatim>\<open>destroy\<close> is a "rough polyfill" for it. It returns at once on a destroyed stream,
  and otherwise sets the flag and calls \<^verbatim>\<open>_destroy\<close>. Its close notification waits for
  the callback it hands to \<^verbatim>\<open>_destroy\<close>; the stream's \<^verbatim>\<open>_destroy\<close> takes no arguments and
  never calls it.
\<close>

definition readable_destroy :: "event_stream \<Rightarrow> event_stream" where
  "readable_destroy s =
     (if \<not> destroyed s then internal_destroy (s\<lparr>destroyed := True\<rparr>) else s)"

text \<open>\<^verbatim>\<open>destroy\<close>, as the stream has it.\<close>

definition destroy :: "event_stream \<Rightarrow> event_stream" where
  "destroy s = (if readableDestroy s then readable_destroy s else destroy_polyfill s)"

subsection \<open>The stream among its consumer, its client and its timers\<close>

text \<open>
  What can happen to a stream: its \<^verbatim>\<open>Readable\<close> asks for data, which it does not do again
  before data is pushed; the consumer destroys the stream, or attaches or removes its
  listeners for \<^verbatim>\<open>'error'\<close>; a request that is out (by its place among them) is answered;
  an armed timer fires. An answer to a request of another kind, or to none, does nothing.
\<close>

datatype stream_event =
    Read
  | Discovered nat "js_error + long_poll_info"
  | Polled nat "js_error + poll_data"
  | Fetched nat "js_error + events_page"
  | TimerFired nat
  | Destroy
  | Listen bool

definition answered :: "nat \<Rightarrow> event_stream \<Rightarrow> event_stream" where
  "answered k s = s\<lparr>pending := take k (pending s) @ drop (Suc k) (pending s)\<rparr>"

definition awaits :: "event_stream \<Rightarrow> nat \<Rightarrow> request \<Rightarrow> bool" where
  "awaits s k r = (k < length (pending s) \<and> fst (pending s ! k) = r)"

definition chains_around :: "event_stream \<Rightarrow> nat \<Rightarrow> request list" where
  "chains_around s k = snd (pending s ! k)"

fun stream_step :: "(string \<Rightarrow> query) \<Rightarrow> event_stream \<Rightarrow> stream_event \<Rightarrow> event_stream" where
  "stream_step parse s Read =
     (if reading s then s else internal_read (s\<lparr>reading := True\<rparr>))"
| "stream_step parse s (Discovered k r) =
     (if awaits s k Discovery
      then settle (getLongPollInfo_then parse) Discovery (chains_around s k) (answered k s) r
      else s)"
| "stream_step parse s (Polled k r) =
     (if awaits s k LongPoll
      then settle (doLongPoll_then parse) LongPoll (chains_around s k) (answered k s) r
      else s)"
| "stream_step parse s (Fetched k r) =
     (if awaits s k EventsGet
      then settle (fetchEvents_then parse) EventsGet (chains_around s k) (answered k s) r
      else s)"
| "stream_step parse s (TimerFired h) =
     (if h \<in> set (timers s)
      then fst (getLongPollInfo [] (s\<lparr>timers := filter (\<lambda>x. x \<noteq> h) (timers s)\<rparr>))
      else s)"
| "stream_step parse s Destroy = destroy s"
| "stream_step parse s (Listen b) = s\<lparr>errorListeners := b\<rparr>"

definition stream_run ::
  "(string \<Rightarrow> query) \<Rightarrow> event_stream \<Rightarrow> stream_event list \<Rightarrow> event_stream" where
  "stream_run parse s es = foldl (stream_step parse) s es"

text \<open>
  The events pushed to the consumer, the errors delivered to its listeners, and the delays
  of the timers set, among some actions.
\<close>

definition pushed :: "action list \<Rightarrow> box_event list" where
  "pushed as = concat (map (\<lambda>a. case a of Push e \<Rightarrow> [e] | _ \<Rightarrow> []) as)"

definition emitted :: "action list \<Rightarrow> js_error list" where
  "emitted as = concat (map (\<lambda>a. case a of EmitError e \<Rightarrow> [e] | _ \<Rightarrow> []) as)"

definition timeouts :: "action list \<Rightarrow> int list" where
  "timeouts as = concat (map (\<lambda>a. case a of SetTimeout _ d \<Rightarrow> [d] | _ \<Rightarrow> []) as)"

text \<open>A page the source accepts: it has entries and a truthy next position.\<close>

definition validated :: "events_page \<Rightarrow> bool" where
  "validated p =
     (entries p \<noteq> None \<and> (case next_stream_position p of None \<Rightarrow> False | Some c \<Rightarrow> truthy c))"

section \<open>Invariants and sample values\<close>

subsection \<open>Session\<close>

text \<open>
  The chains of a session: the marker agrees with the chains in flight, serial numbers
  are below the counter, a chain settles once, and never while it is in flight.
\<close>

definition chains_ok :: "session \<Rightarrow> bool" where
  "chains_ok s =
     (single_flight s \<and>
      list_all (\<lambda>c. fst c < promiseCount s) (inFlight s) \<and>
      list_all (\<lambda>c. fst c < promiseCount s) (settled s) \<and>
      distinct (map fst (settled s)) \<and>
      list_all (\<lambda>c. fst c \<notin> set (map fst (settled s))) (inFlight s))"



text \<open>
  Sample values: the buffers of the specification's scenario (stale 600000 ms, expired
  60000 ms), a token 30 s from expiry and one an hour from it, at clock reading 0.
\<close>

definition cfg0 :: config where
  "cfg0 = \<lparr>expiredBufferMS = 60000, staleBufferMS = 600000\<rparr>"


definition fresh :: token_info where
  "fresh = \<lparr>accessToken = ''new'', expiresAt = 3600000\<rparr>"

definition store_down :: js_error where
  "store_down = \<lparr>errText = ''store unreachable'', authExpired = False\<rparr>"

definition expired_tokens :: js_error where
  "expired_tokens = \<lparr>errText = ''expired tokens'', authExpired = True\<rparr>"

subsection \<open>Event stream\<close>

text \<open>
  One round of the loop of \<^verbatim>\<open>cleanupDedupFilter\<close>, on the hash alone and on the stream.
\<close>

definition prune_step :: "box_event list \<Rightarrow> (string \<times> bool) list \<Rightarrow> string \<Rightarrow> (string \<times> bool) list" where
  "prune_step latest h k = (if find (\<lambda>e. event_id e = k) latest = None then AList.delete k h else h)"

definition prune_state :: "box_event list \<Rightarrow> event_stream \<Rightarrow> string \<Rightarrow> event_stream" where
  "prune_state latest s' eventID =
     (if find (\<lambda>e. event_id e = eventID) latest = None
      then s'\<lparr>dedupHash := AList.delete eventID (dedupHash s')\<rparr> else s')"

text \<open>
  A step that at most sends requests: it leaves the position, the hash, the timers and
  what the consumer has seen as they were.
\<close>

definition only_requests :: "event_stream \<Rightarrow> event_stream \<Rightarrow> bool" where
  "only_requests s s' =
     (streamPosition s' = streamPosition s \<and> dedupHash s' = dedupHash s \<and>
      options s' = options s \<and> destroyed s' = destroyed s \<and> longPollInfo s' = longPollInfo s \<and>
      paused s' = paused s \<and> rateLimiter s' = rateLimiter s \<and> timers s' = timers s \<and>
      retryTimer s' = retryTimer s \<and> timerCount s' = timerCount s \<and>
      reading s' = reading s \<and> errorListeners s' = errorListeners s \<and>
      readableDestroy s' = readableDestroy s \<and>
      pushed (actions s') = pushed (actions s) \<and> emitted (actions s') = emitted (actions s) \<and>
      timeouts (actions s') = timeouts (actions s))"

text \<open>
  The entries of a page that the hash does not hold yet, and the stream after they have
  been pushed between \<^verbatim>\<open>pause\<close> and \<^verbatim>\<open>resume\<close>.
\<close>

definition fresh_entries :: "event_stream \<Rightarrow> box_event list \<Rightarrow> box_event list" where
  "fresh_entries s es = filter (\<lambda>e. \<not> seen (dedupHash s) (event_id e)) es"

definition batch_state :: "event_stream \<Rightarrow> cursor \<Rightarrow> box_event list \<Rightarrow> event_stream" where
  "batch_state s c news =
     (let s4 = foldl push_event
                 (act Pause (s\<lparr>rateLimiter := Delay (fetchInterval (options s)),
                               streamPosition := c, paused := True\<rparr>)) news
      in if \<not> paused s then act Resume (s4\<lparr>paused := False\<rparr>) else s4)"

text \<open>
  Until long poll info has arrived, the only requests that are out are discoveries.
\<close>

definition poll_ready :: "event_stream \<Rightarrow> bool" where
  "poll_ready s = (longPollInfo s = None \<longrightarrow> fst ` set (pending s) \<subseteq> {Discovery})"

text \<open>
  Every events request that is out was made inside the chain of a long poll.
\<close>

definition chained :: "event_stream \<Rightarrow> bool" where
  "chained s = (\<forall>x \<in> set (pending s). fst x = EventsGet \<longrightarrow> LongPoll \<in> set (snd x))"

text \<open>
  One thing at a time: at most one request is out or one timer armed, and none of either
  while the \<^verbatim>\<open>Readable\<close> is not reading; an armed timer is the one \<^verbatim>\<open>_retryTimer\<close> holds;
  a destroyed stream has no timer armed.
\<close>

definition serial :: "event_stream \<Rightarrow> bool" where
  "serial s =
     (length (pending s) + length (timers s) \<le> 1 \<and>
      (\<not> reading s \<longrightarrow> pending s = [] \<and> timers s = []) \<and>
      (\<forall>h \<in> set (timers s). retryTimer s = Some h) \<and>
      (destroyed s \<longrightarrow> timers s = []))"

text \<open>
  What the invariant looks at, and what a method or a callback may do to it: nothing (but
  that data may have been pushed), one more request, or one more timer, held by
  \<^verbatim>\<open>_retryTimer\<close>, on a stream that is not destroyed.
\<close>

definition level :: "event_stream \<Rightarrow> (request \<times> request list) list \<times> nat list \<times> nat option \<times> bool \<times> bool" where
  "level s = (pending s, timers s, retryTimer s, destroyed s, reading s)"

definition moves :: "event_stream \<Rightarrow> event_stream \<Rightarrow> bool" where
  "moves s s' =
     (destroyed s' = destroyed s \<and>
      ((pending s' = pending s \<and> timers s' = timers s \<and> retryTimer s' = retryTimer s \<and>
        (reading s' \<longrightarrow> reading s)) \<or>
       (\<exists>x. pending s' = pending s @ [x] \<and> timers s' = timers s \<and>
            retryTimer s' = retryTimer s \<and> reading s' = reading s) \<or>
       (\<exists>h. pending s' = pending s \<and> timers s' = timers s @ [h] \<and> retryTimer s' = Some h \<and>
            \<not> destroyed s \<and> reading s' = reading s)))"

text \<open>
  Sample values: a parser for a query of one parameter, long poll info whose URL carries a
  parameter, three events, pages, errors, and the streams that these reach. The streams
  live where \<^verbatim>\<open>Readable\<close> has its own \<^verbatim>\<open>destroy\<close>, and have a listener for errors, but for
  \<open>unheard\<close>, which has none, and \<open>legacy\<close>, which has the \<^verbatim>\<open>destroy\<close> of the file.
\<close>

definition sample_parse :: "string \<Rightarrow> query" where
  "sample_parse rest =
     [(takeWhile (\<lambda>c. c \<noteq> CHR ''='') rest, Single (drop 1 (dropWhile (\<lambda>c. c \<noteq> CHR ''='') rest)))]"

definition info0 :: long_poll_info where
  "info0 = \<lparr>max_retries = 10, retry_timeout = 610, url = ''https://poll.example/subscribe?channel=12''\<rparr>"

definition new_change :: poll_data where
  "new_change = \<lparr>message = Some ''new_change''\<rparr>"

definition evA :: box_event where "evA = \<lparr>event_id = ''A'', event_body = ''upload''\<rparr>"

definition evB :: box_event where "evB = \<lparr>event_id = ''B'', event_body = ''rename''\<rparr>"

definition evC :: box_event where "evC = \<lparr>event_id = ''C'', event_body = ''delete''\<rparr>"

definition page_ABAC :: events_page where
  "page_ABAC = \<lparr>entries = Some [evA, evB, evA, evC], next_stream_position = Some (Str ''2'')\<rparr>"

definition page_BC :: events_page where
  "page_BC = \<lparr>entries = Some [evB, evC], next_stream_position = Some (Str ''3'')\<rparr>"

definition page_empty :: events_page where
  "page_empty = \<lparr>entries = Some [], next_stream_position = Some (Num 0)\<rparr>"

definition timed_out :: js_error where
  "timed_out = \<lparr>errText = ''ETIMEDOUT'', authExpired = False\<rparr>"

definition discovering :: event_stream where
  "discovering = stream_run sample_parse (new_stream True (Str ''1'') DEFAULT_OPTIONS)
     [Listen True, Read]"

definition polling :: event_stream where
  "polling = stream_run sample_parse (new_stream True (Str ''1'') DEFAULT_OPTIONS)
     [Listen True, Read, Discovered 0 (Inr info0)]"

definition fetching :: event_stream where
  "fetching = stream_run sample_parse (new_stream True (Str ''1'') DEFAULT_OPTIONS)
     [Listen True, Read, Discovered 0 (Inr info0), Polled 0 (Inr new_change)]"

definition tracking :: "int \<Rightarrow> event_stream" where
  "tracking n = fetching\<lparr>dedupHash := [(''X'', True), (''B'', True)],
     options := DEFAULT_OPTIONS\<lparr>deduplicationFilterSize := n\<rparr>\<rparr>"

definition retrying :: event_stream where
  "retrying = stream_run sample_parse (new_stream True (Str ''1'') DEFAULT_OPTIONS)
     [Listen True, Read, Discovered 0 (Inr info0), Polled 0 (Inl timed_out)]"

definition legacy :: event_stream where
  "legacy = stream_run sample_parse (new_stream False (Str ''1'') DEFAULT_OPTIONS)
     [Listen True, Read, Discovered 0 (Inr info0), Polled 0 (Inl timed_out)]"

definition unheard :: "stream_event list \<Rightarrow> event_stream" where
  "unheard es = stream_run sample_parse (new_stream True (Str ''1'') DEFAULT_OPTIONS) es"
section \<open>Properties of the session\<close>

subsection \<open>Runs\<close>






lemma chains_ok_replies [simp]: "chains_ok (s\<lparr>replies := r\<rparr>) = chains_ok s"
  by (simp add: chains_ok_def single_flight_def)

lemma chains_ok_reads [simp]: "chains_ok (s\<lparr>reads := r\<rparr>) = chains_ok s"
  by (simp add: chains_ok_def single_flight_def)

lemma chains_ok_calls [simp]: "chains_ok (s\<lparr>calls := r\<rparr>) = chains_ok s"
  by (simp add: chains_ok_def single_flight_def)

lemma chains_ok_tokenInfo [simp]: "chains_ok (s\<lparr>tokenInfo := r\<rparr>) = chains_ok s"
  by (simp add: chains_ok_def single_flight_def)








lemma grants_simps [simp]:
  "grants (s\<lparr>replies := r\<rparr>) = grants s"
  "grants (s\<lparr>reads := rd\<rparr>) = grants s"
  "grants (s\<lparr>tokenInfo := ti\<rparr>) = grants s"
  "grants (s\<lparr>calls := calls s @ [ReadAsync]\<rparr>) = grants s"
  by (simp_all add: grants_def)

lemma refresh_replies_simps [simp]:
  "refresh_replies (s\<lparr>reads := rd\<rparr>) = refresh_replies s"
  "refresh_replies (s\<lparr>tokenInfo := ti\<rparr>) = refresh_replies s"
  "refresh_replies (s\<lparr>calls := c\<rparr>) = refresh_replies s"
  by (simp_all add: refresh_replies_def)













subsection \<open>Claims\<close>






text \<open>
  C6. \<^verbatim>\<open>handleExpiredTokensError\<close>. With a token store, the store is cleared first; when
  the clearing succeeds the returned promise rejects with the original error, and when the
  clearing fails it rejects with the store's error in place of the original one. With
  no token store, the promise settles (it is fulfilled) with the original error and no
  store is touched.
\<close>

theorem handleExpiredTokensError_outcome:
  "(tokenStore s \<longrightarrow>
      handleExpiredTokensError (Inr ()) err s = (s\<lparr>calls := calls s @ [ClearAsync]\<rparr>, Inl err) \<and>
      handleExpiredTokensError (Inl e) err s = (s\<lparr>calls := calls s @ [ClearAsync]\<rparr>, Inl e)) \<and>
   (\<not> tokenStore s \<longrightarrow> handleExpiredTokensError cleared err s = (s, Inr err))"
  by (simp add: handleExpiredTokensError_def then_p_def catch_p_def unwrapAndThrow_def)

text \<open>The same at sample values, with a store that fails to clear and with none.\<close>

theorem handleExpiredTokensError_outcome_witness:
  "tokenStore (new_session ''user'' ''7'' cfg0 True) \<and>
   \<not> tokenStore (new_session ''user'' ''7'' cfg0 False) \<and>
   snd (handleExpiredTokensError (Inr ()) expired_tokens (new_session ''user'' ''7'' cfg0 True)) =
     Inl expired_tokens \<and>
   snd (handleExpiredTokensError (Inl store_down) expired_tokens (new_session ''user'' ''7'' cfg0 True)) =
     Inl store_down \<and>
   calls (fst (handleExpiredTokensError (Inl store_down) expired_tokens
     (new_session ''user'' ''7'' cfg0 True))) = [ClearAsync] \<and>
   handleExpiredTokensError (Inl store_down) expired_tokens (new_session ''user'' ''7'' cfg0 False) =
     (new_session ''user'' ''7'' cfg0 False, Inr expired_tokens)"
  using
    handleExpiredTokensError_outcome [of "new_session ''user'' ''7'' cfg0 True" expired_tokens
      store_down "Inl store_down"]
    handleExpiredTokensError_outcome [of "new_session ''user'' ''7'' cfg0 False" expired_tokens
      store_down "Inl store_down"]
  by (simp add: new_session_def)

text \<open>
  C10. \<^verbatim>\<open>revokeTokens\<close> on a session that holds no token. The call does not fail and does
  not return early: the token field stays cleared, the token manager's \<^verbatim>\<open>revokeTokens\<close>
  is called with an absent access token, and what the manager returns for it is what the
  call returns.
\<close>

theorem revokeTokens_without_token:
  "revokeTokens manager_revoke opts (s\<lparr>tokenInfo := None\<rparr>) =
     (s\<lparr>tokenInfo := None, calls := calls s @ [RevokeTokens None opts]\<rparr>,
      manager_revoke None opts)"
  by (simp add: revokeTokens_def)

section \<open>Properties of the event stream\<close>

subsection \<open>Reading the state and the actions\<close>

lemma act_simps [simp]:
  "actions (act a s) = actions s @ [a]"
  "dedupHash (act a s) = dedupHash s"
  "streamPosition (act a s) = streamPosition s"
  "options (act a s) = options s"
  "destroyed (act a s) = destroyed s"
  "paused (act a s) = paused s"
  "reading (act a s) = reading s"
  "errorListeners (act a s) = errorListeners s"
  "readableDestroy (act a s) = readableDestroy s"
  "longPollInfo (act a s) = longPollInfo s"
  "longPollRetries (act a s) = longPollRetries s"
  "pending (act a s) = pending s"
  "timers (act a s) = timers s"
  "timerCount (act a s) = timerCount s"
  "retryTimer (act a s) = retryTimer s"
  "rateLimiter (act a s) = rateLimiter s"
  by (simp_all add: act_def)

lemma send_simps [simp]:
  "actions (send r ctx a s) = actions s @ [a]"
  "pending (send r ctx a s) = pending s @ [(r, ctx)]"
  "dedupHash (send r ctx a s) = dedupHash s"
  "streamPosition (send r ctx a s) = streamPosition s"
  "options (send r ctx a s) = options s"
  "destroyed (send r ctx a s) = destroyed s"
  "paused (send r ctx a s) = paused s"
  "reading (send r ctx a s) = reading s"
  "errorListeners (send r ctx a s) = errorListeners s"
  "readableDestroy (send r ctx a s) = readableDestroy s"
  "longPollInfo (send r ctx a s) = longPollInfo s"
  "longPollRetries (send r ctx a s) = longPollRetries s"
  "timers (send r ctx a s) = timers s"
  "timerCount (send r ctx a s) = timerCount s"
  "retryTimer (send r ctx a s) = retryTimer s"
  "rateLimiter (send r ctx a s) = rateLimiter s"
  by (simp_all add: send_def)

lemma answered_simps [simp]:
  "actions (answered k s) = actions s"
  "dedupHash (answered k s) = dedupHash s"
  "streamPosition (answered k s) = streamPosition s"
  "options (answered k s) = options s"
  "destroyed (answered k s) = destroyed s"
  "paused (answered k s) = paused s"
  "reading (answered k s) = reading s"
  "errorListeners (answered k s) = errorListeners s"
  "readableDestroy (answered k s) = readableDestroy s"
  "longPollInfo (answered k s) = longPollInfo s"
  "longPollRetries (answered k s) = longPollRetries s"
  "timers (answered k s) = timers s"
  "timerCount (answered k s) = timerCount s"
  "retryTimer (answered k s) = retryTimer s"
  "rateLimiter (answered k s) = rateLimiter s"
  by (simp_all add: answered_def)

lemma pushed_append [simp]: "pushed (xs @ ys) = pushed xs @ pushed ys"
  by (simp add: pushed_def)

lemma pushed_Nil [simp]: "pushed [] = []"
  by (simp add: pushed_def)

lemma pushed_Cons [simp]: "pushed (a # as) = (case a of Push e \<Rightarrow> [e] | _ \<Rightarrow> []) @ pushed as"
  by (simp add: pushed_def)

subsection \<open>Pushing a batch and pruning the hash\<close>

lemma foldl_push_actions:
  "actions (foldl push_event s es) = actions s @ map Push es"
  by (induction es arbitrary: s) (simp_all add: push_event_def)

lemma pushed_map_Push [simp]: "pushed (map Push es) = es"
  by (induction es) (simp_all add: pushed_def)

lemma foldl_push_dedup:
  "dedupHash (foldl push_event s es) =
     foldl (\<lambda>h e. AList.update (event_id e) True h) (dedupHash s) es"
  by (induction es arbitrary: s) (simp_all add: push_event_def)

lemma foldl_push_other [simp]:
  "options (foldl push_event s es) = options s"
  "streamPosition (foldl push_event s es) = streamPosition s"
  "paused (foldl push_event s es) = paused s"
  "destroyed (foldl push_event s es) = destroyed s"
  "pending (foldl push_event s es) = pending s"
  "timers (foldl push_event s es) = timers s"
  "retryTimer (foldl push_event s es) = retryTimer s"
  "longPollInfo (foldl push_event s es) = longPollInfo s"
  by (induction es arbitrary: s) (simp_all add: push_event_def)

lemma marked_keys:
  "set (map fst (foldl (\<lambda>h e. AList.update (event_id e) True h) h es)) =
     set (map fst h) \<union> event_id ` set es"
  by (induction es arbitrary: h) (auto simp: AList.dom_update)

lemma marked_distinct:
  "distinct (map fst h) \<Longrightarrow>
     distinct (map fst (foldl (\<lambda>h e. AList.update (event_id e) True h) h es))"
  by (induction es arbitrary: h) (simp_all add: AList.distinct_update)

lemma marked_true:
  "list_all snd h \<Longrightarrow>
     list_all snd (foldl (\<lambda>h e. AList.update (event_id e) True h) h es)"
proof (induction es arbitrary: h)
  case Nil then show ?case by simp
next
  case (Cons e es)
  have "list_all snd (AList.update (event_id e) True h)"
    using Cons.prems by (induction h) (auto)
  then show ?case using Cons.IH by simp
qed

lemma cleanupDedupFilter_fold:
  "cleanupDedupFilter latest s = foldl (prune_state latest) s (map fst (dedupHash s))"
  unfolding cleanupDedupFilter_def Let_def prune_state_def ..

lemma cleanup_dedup:
  "dedupHash (foldl (prune_state latest) s ks) = foldl (prune_step latest) (dedupHash s) ks"
  by (induction ks arbitrary: s) (simp_all add: prune_step_def prune_state_def)

lemma cleanup_other:
  "actions (foldl (prune_state latest) s ks) = actions s"
  "streamPosition (foldl (prune_state latest) s ks) = streamPosition s"
  "options (foldl (prune_state latest) s ks) = options s"
  "paused (foldl (prune_state latest) s ks) = paused s"
  "reading (foldl (prune_state latest) s ks) = reading s"
  "destroyed (foldl (prune_state latest) s ks) = destroyed s"
  "pending (foldl (prune_state latest) s ks) = pending s"
  "timers (foldl (prune_state latest) s ks) = timers s"
  "retryTimer (foldl (prune_state latest) s ks) = retryTimer s"
  "longPollInfo (foldl (prune_state latest) s ks) = longPollInfo s"
  "readableDestroy (foldl (prune_state latest) s ks) = readableDestroy s"
  "errorListeners (foldl (prune_state latest) s ks) = errorListeners s"
  by (induction ks arbitrary: s) (simp_all add: prune_state_def)

lemma find_None_event: "(find (\<lambda>e. event_id e = k) latest = None) = (k \<notin> event_id ` set latest)"
  by (auto simp: find_None_iff)

lemma prune_step_keys:
  "set (map fst (prune_step latest h k)) =
     (if k \<in> event_id ` set latest then set (map fst h) else set (map fst h) - {k})"
  by (simp add: prune_step_def find_None_event AList.delete_keys del: set_map)

lemma prune_keys:
  "set (map fst (foldl (prune_step latest) h ks)) =
     {k \<in> set (map fst h). k \<in> set ks \<longrightarrow> k \<in> event_id ` set latest}"
proof (induction ks arbitrary: h)
  case Nil then show ?case by simp
next
  case (Cons k ks)
  show ?case
    unfolding foldl_Cons Cons.IH prune_step_keys by auto
qed

lemma prune_distinct:
  "distinct (map fst h) \<Longrightarrow> distinct (map fst (foldl (prune_step latest) h ks))"
  by (induction ks arbitrary: h) (simp_all add: prune_step_def AList.distinct_delete)

lemma prune_true:
  "list_all snd h \<Longrightarrow> list_all snd (foldl (prune_step latest) h ks)"
proof (induction ks arbitrary: h)
  case Nil then show ?case by simp
next
  case (Cons k ks)
  have "list_all snd (prune_step latest h k)"
    using Cons.prems by (auto simp: prune_step_def AList.delete_eq list_all_iff)
  then show ?case using Cons.IH by simp
qed

lemma cleanupDedupFilter_keys:
  "set (map fst (dedupHash (cleanupDedupFilter latest s))) =
     {k \<in> set (map fst (dedupHash s)). k \<in> event_id ` set latest}"
  unfolding cleanupDedupFilter_fold cleanup_dedup prune_keys by auto

lemma emitted_append [simp]: "emitted (xs @ ys) = emitted xs @ emitted ys"
  by (simp add: emitted_def)

lemma emitted_Nil [simp]: "emitted [] = []"
  by (simp add: emitted_def)

lemma emitted_Cons [simp]: "emitted (a # as) = (case a of EmitError e \<Rightarrow> [e] | _ \<Rightarrow> []) @ emitted as"
  by (simp add: emitted_def)

lemma emitted_map_Push [simp]: "emitted (map Push es) = []"
  by (induction es) (simp_all add: emitted_def)

lemma timeouts_append [simp]: "timeouts (xs @ ys) = timeouts xs @ timeouts ys"
  by (simp add: timeouts_def)

lemma timeouts_Nil [simp]: "timeouts [] = []"
  by (simp add: timeouts_def)

lemma timeouts_Cons [simp]: "timeouts (a # as) = (case a of SetTimeout _ d \<Rightarrow> [d] | _ \<Rightarrow> []) @ timeouts as"
  by (simp add: timeouts_def)

lemma timeouts_map_Push [simp]: "timeouts (map Push es) = []"
  by (induction es) (simp_all add: timeouts_def)

subsection \<open>Requests, handlers and pages\<close>

lemma getLongPollInfo_only_requests: "only_requests s (fst (getLongPollInfo ctx s))"
  by (simp add: only_requests_def getLongPollInfo_def)

lemma doLongPoll_only_requests: "only_requests s (fst (doLongPoll parse ctx s))"
  using getLongPollInfo_only_requests [of s ctx]
  by (simp add: only_requests_def doLongPoll_def Let_def split: option.splits)

lemma fetchEvents_only_requests: "only_requests s (fst (fetchEvents ctx s))"
  by (simp add: only_requests_def fetchEvents_def)

lemma doLongPoll_then_only_requests: "only_requests s (fst (doLongPoll_then parse ctx s d))"
  using getLongPollInfo_only_requests [of s ctx] doLongPoll_only_requests [of s parse ctx]
    fetchEvents_only_requests [of s ctx]
  by (simp add: doLongPoll_then_def only_requests_def)

lemma retryPollInfo_effect:
  "pushed (actions (retryPollInfo s)) = pushed (actions s)"
  "emitted (actions (retryPollInfo s)) = emitted (actions s)"
  "timeouts (actions (retryPollInfo s)) =
     timeouts (actions s) @ (if destroyed s then [] else [retryDelay (options s)])"
  "streamPosition (retryPollInfo s) = streamPosition s"
  "dedupHash (retryPollInfo s) = dedupHash s"
  "longPollInfo (retryPollInfo s) = longPollInfo s"
  "pending (retryPollInfo s) = pending s"
  "destroyed (retryPollInfo s) = destroyed s"
  "errorListeners (retryPollInfo s) = errorListeners s"
  "options (retryPollInfo s) = options s"
  by (simp_all add: retryPollInfo_def)

text \<open>What the catch callbacks and the way out of a rejection leave as it was.\<close>

lemma catch_of_keeps:
  "pushed (actions (fst (catch_of c s e))) = pushed (actions s)"
  "streamPosition (fst (catch_of c s e)) = streamPosition s"
  "dedupHash (fst (catch_of c s e)) = dedupHash s"
  "longPollInfo (fst (catch_of c s e)) = longPollInfo s"
  "pending (fst (catch_of c s e)) = pending s"
  "destroyed (fst (catch_of c s e)) = destroyed s"
  "errorListeners (fst (catch_of c s e)) = errorListeners s"
  by (cases c; simp add: getLongPollInfo_catch_def doLongPoll_catch_def fetchEvents_catch_def
        emit_error_def retryPollInfo_effect)+

lemma reject_keeps:
  "pushed (actions (reject ctx s e)) = pushed (actions s)"
  "streamPosition (reject ctx s e) = streamPosition s"
  "dedupHash (reject ctx s e) = dedupHash s"
  "longPollInfo (reject ctx s e) = longPollInfo s"
  "pending (reject ctx s e) = pending s"
  "destroyed (reject ctx s e) = destroyed s"
  "errorListeners (reject ctx s e) = errorListeners s"
proof (induction ctx arbitrary: s e)
  case Nil
  {
    case 1 show ?case by simp
  next
    case 2 show ?case by simp
  next
    case 3 show ?case by simp
  next
    case 4 show ?case by simp
  next
    case 5 show ?case by simp
  next
    case 6 show ?case by simp
  next
    case 7 show ?case by simp
  }
next
  case (Cons c ctx)
  {
    case 1 show ?case
      using Cons.IH(1) [of "fst (catch_of c s e)"] catch_of_keeps(1) [of c s e]
      by (cases "catch_of c s e") (auto split: option.splits)
  next
    case 2 show ?case
      using Cons.IH(2) [of "fst (catch_of c s e)"] catch_of_keeps(2) [of c s e]
      by (cases "catch_of c s e") (auto split: option.splits)
  next
    case 3 show ?case
      using Cons.IH(3) [of "fst (catch_of c s e)"] catch_of_keeps(3) [of c s e]
      by (cases "catch_of c s e") (auto split: option.splits)
  next
    case 4 show ?case
      using Cons.IH(4) [of "fst (catch_of c s e)"] catch_of_keeps(4) [of c s e]
      by (cases "catch_of c s e") (auto split: option.splits)
  next
    case 5 show ?case
      using Cons.IH(5) [of "fst (catch_of c s e)"] catch_of_keeps(5) [of c s e]
      by (cases "catch_of c s e") (auto split: option.splits)
  next
    case 6 show ?case
      using Cons.IH(6) [of "fst (catch_of c s e)"] catch_of_keeps(6) [of c s e]
      by (cases "catch_of c s e") (auto split: option.splits)
  next
    case 7 show ?case
      using Cons.IH(7) [of "fst (catch_of c s e)"] catch_of_keeps(7) [of c s e]
      by (cases "catch_of c s e") (auto split: option.splits)
  }
qed

text \<open>The page callback, branch by branch.\<close>

lemma fetchEvents_then_invalid:
  "\<not> validated page \<Longrightarrow>
     fetchEvents_then parse ctx s page =
       doLongPoll parse ctx (s\<lparr>rateLimiter := Delay (fetchInterval (options s))\<rparr>)"
  by (auto simp: fetchEvents_then_def validated_def Let_def split: option.splits)

lemma fetchEvents_then_stale:
  "entries page = Some es \<Longrightarrow> next_stream_position page = Some c \<Longrightarrow> truthy c \<Longrightarrow>
   fresh_entries s es = [] \<Longrightarrow>
     fetchEvents_then parse ctx s page =
       doLongPoll parse ctx
         (s\<lparr>rateLimiter := Delay (fetchInterval (options s)), streamPosition := c\<rparr>)"
  by (simp add: fetchEvents_then_def fresh_entries_def Let_def)

lemma fetchEvents_then_batch:
  "entries page = Some es \<Longrightarrow> next_stream_position page = Some c \<Longrightarrow> truthy c \<Longrightarrow>
   fresh_entries s es \<noteq> [] \<Longrightarrow>
     fetchEvents_then parse ctx s page =
       (if int (length (dedupHash (batch_state s c (fresh_entries s es))))
             \<ge> deduplicationFilterSize (options s)
        then cleanupDedupFilter es (batch_state s c (fresh_entries s es))
        else batch_state s c (fresh_entries s es), Settled True)"
  by (simp add: fetchEvents_then_def fresh_entries_def batch_state_def Let_def)

lemma batch_state_simps:
  "dedupHash (batch_state s c news) =
     foldl (\<lambda>h e. AList.update (event_id e) True h) (dedupHash s) news"
  "pushed (actions (batch_state s c news)) = pushed (actions s) @ news"
  "emitted (actions (batch_state s c news)) = emitted (actions s)"
  "timeouts (actions (batch_state s c news)) = timeouts (actions s)"
  "streamPosition (batch_state s c news) = c"
  "pending (batch_state s c news) = pending s"
  "timers (batch_state s c news) = timers s"
  "retryTimer (batch_state s c news) = retryTimer s"
  "longPollInfo (batch_state s c news) = longPollInfo s"
  "destroyed (batch_state s c news) = destroyed s"
  by (simp_all add: batch_state_def Let_def foldl_push_dedup foldl_push_actions)

lemma foldl_push_reading: "reading (foldl push_event s es) = (es = [] \<and> reading s)"
  by (induction es arbitrary: s) (simp_all add: push_event_def)

lemma batch_state_reading: "reading (batch_state s c news) = (news = [] \<and> reading s)"
  by (simp add: batch_state_def Let_def foldl_push_reading)

lemma cleanupDedupFilter_other:
  "actions (cleanupDedupFilter latest s) = actions s"
  "streamPosition (cleanupDedupFilter latest s) = streamPosition s"
  "pending (cleanupDedupFilter latest s) = pending s"
  "timers (cleanupDedupFilter latest s) = timers s"
  "retryTimer (cleanupDedupFilter latest s) = retryTimer s"
  "reading (cleanupDedupFilter latest s) = reading s"
  "longPollInfo (cleanupDedupFilter latest s) = longPollInfo s"
  "destroyed (cleanupDedupFilter latest s) = destroyed s"
  "readableDestroy (cleanupDedupFilter latest s) = readableDestroy s"
  "errorListeners (cleanupDedupFilter latest s) = errorListeners s"
  by (simp_all add: cleanupDedupFilter_fold cleanup_other)

lemma validated_cases:
  obtains (invalid) "\<not> validated page"
  | (stale) es c where "entries page = Some es" "next_stream_position page = Some c" "truthy c"
      "validated page" "fresh_entries s es = []"
  | (batch) es c where "entries page = Some es" "next_stream_position page = Some c" "truthy c"
      "validated page" "fresh_entries s es \<noteq> []"
  by (cases "entries page"; cases "next_stream_position page") (auto simp: validated_def)

lemma fetchEvents_then_pushed:
  "pushed (actions (fst (fetchEvents_then parse ctx s page))) =
     pushed (actions s) @
       (case entries page of
          Some es \<Rightarrow> if validated page then fresh_entries s es else []
        | None \<Rightarrow> [])"
proof (cases rule: validated_cases [where page = page and s = s])
  case invalid
  then show ?thesis
    using doLongPoll_only_requests
      [of "s\<lparr>rateLimiter := Delay (fetchInterval (options s))\<rparr>" parse ctx]
    by (simp add: fetchEvents_then_invalid only_requests_def split: option.splits)
next
  case (stale es c)
  then show ?thesis
    using doLongPoll_only_requests
      [of "s\<lparr>rateLimiter := Delay (fetchInterval (options s)), streamPosition := c\<rparr>" parse ctx]
    by (simp add: fetchEvents_then_stale only_requests_def)
next
  case (batch es c)
  then show ?thesis
    by (simp add: fetchEvents_then_batch batch_state_simps cleanupDedupFilter_other)
qed

lemma settle_Inr:
  "settle f c ctx s (Inr v) =
     (case snd (f (c # ctx) s v) of
        Threw e \<Rightarrow> reject (c # ctx) (fst (f (c # ctx) s v)) e
      | _ \<Rightarrow> fst (f (c # ctx) s v))"
  by (cases "f (c # ctx) s v"; cases "snd (f (c # ctx) s v)") (auto simp: settle_def)

lemma settle_Inl: "settle f c ctx s (Inl err) = reject (c # ctx) s err"
  by (simp add: settle_def)

lemma settle_keeps:
  assumes "\<And>ctx s v. P (fst (f ctx s v)) = P s" and "\<And>ctx s e. P (reject ctx s e) = P s"
  shows "P (settle f c ctx s r) = P s"
proof (cases r)
  case (Inl e)
  then show ?thesis by (simp add: settle_Inl assms del: reject.simps)
next
  case (Inr v)
  then show ?thesis by (simp add: settle_Inr assms split: outcome.splits del: reject.simps)
qed

lemma fetch_settled_pushed:
  "pushed (actions (settle (fetchEvents_then parse) c ctx s (Inr page))) =
     pushed (actions (fst (fetchEvents_then parse (c # ctx) s page)))"
  by (simp add: settle_Inr reject_keeps split: outcome.splits del: reject.simps)

lemma batch_outcome:
  assumes "entries page = Some es" "validated page" "fresh_entries s es \<noteq> []"
  shows "snd (fetchEvents_then parse ctx s page) = Settled True"
proof -
  obtain c where "next_stream_position page = Some c" "truthy c"
    using assms(2) by (auto simp: validated_def split: option.splits)
  then show ?thesis
    using assms by (simp add: fetchEvents_then_batch)
qed

lemma batch_dedup:
  assumes "entries page = Some es" "validated page" "fresh_entries s es \<noteq> []"
    and "distinct (map fst (dedupHash s))"
    and "marked = set (map fst (dedupHash s)) \<union> event_id ` set (fresh_entries s es)"
  shows "distinct (map fst (dedupHash (fst (fetchEvents_then parse ctx s page))))"
    and "set (map fst (dedupHash (fst (fetchEvents_then parse ctx s page)))) =
          (if int (card marked) \<ge> deduplicationFilterSize (options s)
           then {i \<in> marked. i \<in> event_id ` set es} else marked)"
    and "list_all snd (dedupHash s) \<longrightarrow>
          list_all snd (dedupHash (fst (fetchEvents_then parse ctx s page)))"
proof -
  obtain c where c: "next_stream_position page = Some c" "truthy c"
    using assms(2) by (auto simp: validated_def split: option.splits)
  let ?h = "foldl (\<lambda>h e. AList.update (event_id e) True h) (dedupHash s) (fresh_entries s es)"
  let ?b = "batch_state s c (fresh_entries s es)"
  have hb: "dedupHash ?b = ?h" by (simp add: batch_state_simps)
  have dh: "distinct (map fst ?h)" using assms(4) by (rule marked_distinct)
  have kh: "set (map fst ?h) = marked" unfolding assms(5) by (rule marked_keys)
  have "length ?h = length (map fst ?h)" by simp
  also have "\<dots> = card (set (map fst ?h))" using dh by (rule distinct_card [symmetric])
  finally have len: "length ?h = card marked" using kh by simp
  have eq: "fst (fetchEvents_then parse ctx s page) =
      (if int (card marked) \<ge> deduplicationFilterSize (options s) then cleanupDedupFilter es ?b else ?b)"
    using assms(1,3) c by (simp add: fetchEvents_then_batch hb len)
  show "distinct (map fst (dedupHash (fst (fetchEvents_then parse ctx s page))))"
    unfolding eq using dh by (simp add: hb cleanupDedupFilter_fold cleanup_dedup prune_distinct)
  show "set (map fst (dedupHash (fst (fetchEvents_then parse ctx s page)))) =
          (if int (card marked) \<ge> deduplicationFilterSize (options s)
           then {i \<in> marked. i \<in> event_id ` set es} else marked)"
    unfolding eq using kh by (simp add: cleanupDedupFilter_keys hb del: set_map)
  show "list_all snd (dedupHash s) \<longrightarrow>
          list_all snd (dedupHash (fst (fetchEvents_then parse ctx s page)))"
    unfolding eq by (simp add: hb cleanupDedupFilter_fold cleanup_dedup prune_true marked_true)
qed

lemma indexOf_positive:
  assumes "0 < indexOf t c"
  shows "t = take (nat (indexOf t c)) t @ [c] @ drop (nat (indexOf t c + 1)) t"
    and "c \<notin> set (take (nat (indexOf t c)) t)"
proof -
  let ?P = "\<lambda>x. x \<noteq> c"
  have mem: "c \<in> set t"
    using assms by (simp add: indexOf_def split: if_splits)
  then have ix: "nat (indexOf t c) = length (takeWhile ?P t)"
    by (simp add: indexOf_def)
  have tk: "take (length (takeWhile ?P t)) t = takeWhile ?P t"
    by (rule takeWhile_eq_take [symmetric])
  have dr: "drop (length (takeWhile ?P t)) t = dropWhile ?P t"
    by (rule dropWhile_eq_drop [symmetric])
  have ne: "dropWhile ?P t \<noteq> []"
    using mem by simp
  then have hd: "hd (dropWhile ?P t) = c"
    using hd_dropWhile [of ?P t] by simp
  have "dropWhile ?P t = c # tl (dropWhile ?P t)"
    using ne hd by (cases "dropWhile ?P t") simp_all
  moreover have "tl (dropWhile ?P t) = drop (Suc (length (takeWhile ?P t))) t"
    by (simp add: dr [symmetric] drop_Suc tl_drop)
  ultimately have "dropWhile ?P t = c # drop (Suc (length (takeWhile ?P t))) t"
    by simp
  moreover have "nat (indexOf t c + 1) = Suc (length (takeWhile ?P t))"
    using mem by (simp add: indexOf_def)
  ultimately show "t = take (nat (indexOf t c)) t @ [c] @ drop (nat (indexOf t c + 1)) t"
    using takeWhile_dropWhile_id [of ?P t] by (simp add: ix tk)
  show "c \<notin> set (take (nat (indexOf t c)) t)"
    unfolding ix tk using set_takeWhileD by fastforce
qed

subsection \<open>Runs\<close>

lemma stream_run_snoc: "stream_run parse s (es @ [e]) = stream_step parse (stream_run parse s es) e"
  by (simp add: stream_run_def)

lemma stream_run_Nil: "stream_run parse s [] = s"
  by (simp add: stream_run_def)

lemma awaits_pending: "awaits s k r \<Longrightarrow> r \<in> fst ` set (pending s)"
  by (auto simp: awaits_def)

lemma answered_pending: "set (pending (answered k s)) \<subseteq> set (pending s)"
  by (auto simp: answered_def dest: in_set_takeD in_set_dropD)

lemma destroy_effect:
  "streamPosition (destroy s) = streamPosition s"
  "longPollInfo (destroy s) = longPollInfo s"
  "pending (destroy s) = pending s"
  "dedupHash (destroy s) = dedupHash s"
  "reading (destroy s) = reading s"
  by (simp_all add: destroy_def destroy_polyfill_def readable_destroy_def internal_destroy_def)

subsection \<open>Long poll info, once there, stays\<close>

lemma getLongPollInfo_pending:
  "longPollInfo (fst (getLongPollInfo ctx s)) = longPollInfo s"
  "fst ` set (pending (fst (getLongPollInfo ctx s))) \<subseteq> insert Discovery (fst ` set (pending s))"
  by (auto simp: getLongPollInfo_def)

lemma getLongPollInfo_discovery:
  "fst ` set (pending s) \<subseteq> {Discovery} \<Longrightarrow>
     fst ` set (pending (fst (getLongPollInfo ctx s))) \<subseteq> {Discovery}"
  by (auto simp: getLongPollInfo_def)

lemma fetchEvents_then_longPollInfo:
  "longPollInfo (fst (fetchEvents_then parse ctx s page)) = longPollInfo s"
proof (cases rule: validated_cases [where page = page and s = s])
  case invalid
  then show ?thesis
    using doLongPoll_only_requests
      [of "s\<lparr>rateLimiter := Delay (fetchInterval (options s))\<rparr>" parse ctx]
    by (simp add: fetchEvents_then_invalid only_requests_def)
next
  case (stale es c)
  then show ?thesis
    using doLongPoll_only_requests
      [of "s\<lparr>rateLimiter := Delay (fetchInterval (options s)), streamPosition := c\<rparr>" parse ctx]
    by (simp add: fetchEvents_then_stale only_requests_def)
next
  case (batch es c)
  then show ?thesis
    by (simp add: fetchEvents_then_batch batch_state_simps cleanupDedupFilter_other)
qed

lemma fetchEvents_then_position:
  "streamPosition (fst (fetchEvents_then parse ctx s page)) =
     (case next_stream_position page of
        Some c \<Rightarrow> if validated page then c else streamPosition s
      | None \<Rightarrow> streamPosition s)"
proof (cases rule: validated_cases [where page = page and s = s])
  case invalid
  then show ?thesis
    using doLongPoll_only_requests
      [of "s\<lparr>rateLimiter := Delay (fetchInterval (options s))\<rparr>" parse ctx]
    by (simp add: fetchEvents_then_invalid only_requests_def split: option.splits)
next
  case (stale es c)
  then show ?thesis
    using doLongPoll_only_requests
      [of "s\<lparr>rateLimiter := Delay (fetchInterval (options s)), streamPosition := c\<rparr>" parse ctx]
    by (simp add: fetchEvents_then_stale only_requests_def)
next
  case (batch es c)
  then show ?thesis
    by (simp add: fetchEvents_then_batch batch_state_simps cleanupDedupFilter_other)
qed

lemma doLongPoll_then_longPollInfo:
  "longPollInfo (fst (doLongPoll_then parse ctx s d)) = longPollInfo s"
  using doLongPoll_then_only_requests [of s parse ctx d] by (simp add: only_requests_def)

lemma getLongPollInfo_then_longPollInfo:
  "longPollInfo (fst (getLongPollInfo_then parse ctx s info)) = Some info"
  using doLongPoll_only_requests [of "s\<lparr>longPollInfo := Some info, longPollRetries := 0\<rparr>" parse ctx]
  by (simp add: getLongPollInfo_then_def only_requests_def)

lemma discovered_longPollInfo:
  "longPollInfo (settle (getLongPollInfo_then parse) c ctx s (Inr info)) = Some info"
  by (simp add: settle_Inr getLongPollInfo_then_longPollInfo reject_keeps
      split: outcome.splits del: reject.simps)

lemma step_keeps_longPollInfo:
  "longPollInfo s \<noteq> None \<Longrightarrow> longPollInfo (stream_step parse s e) \<noteq> None"
proof (cases e)
  case Read
  then show "longPollInfo s \<noteq> None \<Longrightarrow> ?thesis"
    by (simp add: internal_read_def getLongPollInfo_pending)
next
  case (Discovered k r)
  then show "longPollInfo s \<noteq> None \<Longrightarrow> ?thesis"
    by (cases r) (simp_all add: discovered_longPollInfo settle_Inl reject_keeps del: reject.simps)
next
  case (Polled k r)
  have "longPollInfo (settle (doLongPoll_then parse) LongPoll (chains_around s k) (answered k s) r)
      = longPollInfo (answered k s)"
    by (rule settle_keeps) (simp_all add: doLongPoll_then_longPollInfo reject_keeps del: reject.simps)
  then show "longPollInfo s \<noteq> None \<Longrightarrow> ?thesis" using Polled by simp
next
  case (Fetched k r)
  have "longPollInfo (settle (fetchEvents_then parse) EventsGet (chains_around s k) (answered k s) r)
      = longPollInfo (answered k s)"
    by (rule settle_keeps) (simp_all add: fetchEvents_then_longPollInfo reject_keeps del: reject.simps)
  then show "longPollInfo s \<noteq> None \<Longrightarrow> ?thesis" using Fetched by simp
next
  case (TimerFired h)
  then show "longPollInfo s \<noteq> None \<Longrightarrow> ?thesis"
    by (simp add: getLongPollInfo_pending)
next
  case Destroy
  then show "longPollInfo s \<noteq> None \<Longrightarrow> ?thesis"
    by (simp add: destroy_effect)
next
  case (Listen b)
  then show "longPollInfo s \<noteq> None \<Longrightarrow> ?thesis" by simp
qed

lemma poll_ready_step:
  assumes "poll_ready s"
  shows "poll_ready (stream_step parse s e)"
proof (cases "longPollInfo s")
  case (Some info)
  then have "longPollInfo (stream_step parse s e) \<noteq> None"
    using step_keeps_longPollInfo [of s parse e] by simp
  then show ?thesis by (auto simp: poll_ready_def)
next
  case None
  then have only: "fst ` set (pending s) \<subseteq> {Discovery}"
    using assms by (simp add: poll_ready_def)
  show ?thesis
  proof (cases e)
    case Read
    then show ?thesis
      using only assms getLongPollInfo_discovery [of "s\<lparr>reading := True\<rparr>" "[]"]
      by (simp add: poll_ready_def internal_read_def getLongPollInfo_pending(1))
  next
    case (Discovered k r)
    show ?thesis
    proof (cases r)
      case (Inl err)
      have "fst ` set (pending (answered k s)) \<subseteq> {Discovery}"
        using only answered_pending [of k s] by blast
      then show ?thesis
        using Discovered Inl assms
        by (auto simp: poll_ready_def settle_Inl reject_keeps simp del: reject.simps)
    next
      case (Inr info)
      then show ?thesis
        using Discovered assms by (simp add: poll_ready_def discovered_longPollInfo)
    qed
  next
    case (Polled k r)
    have "\<not> awaits s k LongPoll"
      using only awaits_pending [of s k LongPoll] by auto
    then show ?thesis using Polled assms by simp
  next
    case (Fetched k r)
    have "\<not> awaits s k EventsGet"
      using only awaits_pending [of s k EventsGet] by auto
    then show ?thesis using Fetched assms by simp
  next
    case (TimerFired h)
    then show ?thesis
      using only assms
        getLongPollInfo_discovery [of "s\<lparr>timers := filter (\<lambda>x. x \<noteq> h) (timers s)\<rparr>" "[]"]
      by (simp add: poll_ready_def getLongPollInfo_pending(1))
  next
    case Destroy
    then show ?thesis using assms by (simp add: poll_ready_def destroy_effect)
  next
    case (Listen b)
    then show ?thesis using assms by (simp add: poll_ready_def)
  qed
qed

lemma poll_ready_run: "poll_ready s \<Longrightarrow> poll_ready (stream_run parse s es)"
  by (induction es rule: rev_induct) (simp_all add: stream_run_Nil stream_run_snoc poll_ready_step)

lemma poll_ready_new: "poll_ready (new_stream native position opts)"
  by (simp add: poll_ready_def new_stream_def)

subsection \<open>The stream position\<close>

lemma getLongPollInfo_then_position:
  "streamPosition (fst (getLongPollInfo_then parse ctx s info)) = streamPosition s"
  using doLongPoll_only_requests [of "s\<lparr>longPollInfo := Some info, longPollRetries := 0\<rparr>" parse ctx]
  by (simp add: getLongPollInfo_then_def only_requests_def)

lemma doLongPoll_then_position:
  "streamPosition (fst (doLongPoll_then parse ctx s d)) = streamPosition s"
  using doLongPoll_then_only_requests [of s parse ctx d] by (simp add: only_requests_def)

lemma fetched_position:
  "streamPosition (settle (fetchEvents_then parse) c ctx s (Inr page)) =
     streamPosition (fst (fetchEvents_then parse (c # ctx) s page))"
  by (simp add: settle_Inr reject_keeps split: outcome.splits del: reject.simps)

lemma step_position:
  assumes "streamPosition (stream_step parse s e) \<noteq> streamPosition s"
  shows "\<exists>k page. e = Fetched k (Inr page) \<and> awaits s k EventsGet \<and> validated page \<and>
           next_stream_position page = Some (streamPosition (stream_step parse s e))"
proof (cases e)
  case Read
  then show ?thesis
    using assms getLongPollInfo_only_requests [of "s\<lparr>reading := True\<rparr>" "[]"]
    by (simp add: internal_read_def only_requests_def split: if_splits)
next
  case (Discovered k r)
  have "streamPosition (settle (getLongPollInfo_then parse) Discovery (chains_around s k) (answered k s) r)
      = streamPosition (answered k s)"
    by (rule settle_keeps) (simp_all add: getLongPollInfo_then_position reject_keeps del: reject.simps)
  then show ?thesis using assms Discovered by (simp split: if_splits)
next
  case (Polled k r)
  have "streamPosition (settle (doLongPoll_then parse) LongPoll (chains_around s k) (answered k s) r)
      = streamPosition (answered k s)"
    by (rule settle_keeps) (simp_all add: doLongPoll_then_position reject_keeps del: reject.simps)
  then show ?thesis using assms Polled by (simp split: if_splits)
next
  case (Fetched k r)
  show ?thesis
  proof (cases r)
    case (Inl err)
    then show ?thesis
      using assms Fetched by (simp add: settle_Inl reject_keeps split: if_splits del: reject.simps)
  next
    case (Inr page)
    have aw: "awaits s k EventsGet"
      using assms Fetched by (simp split: if_splits)
    then have eq: "streamPosition (stream_step parse s e) =
        (case next_stream_position page of
           Some c \<Rightarrow> if validated page then c else streamPosition s
         | None \<Rightarrow> streamPosition s)"
      using Fetched Inr by (simp add: fetched_position fetchEvents_then_position split: option.splits)
    then have "validated page \<and> next_stream_position page = Some (streamPosition (stream_step parse s e))"
      using assms by (auto split: option.splits if_splits)
    then show ?thesis using Fetched Inr aw by blast
  qed
next
  case (TimerFired h)
  then show ?thesis
    using assms
      getLongPollInfo_only_requests [of "s\<lparr>timers := filter (\<lambda>x. x \<noteq> h) (timers s)\<rparr>" "[]"]
    by (simp add: only_requests_def split: if_splits)
next
  case Destroy
  then show ?thesis using assms by (simp add: destroy_effect)
next
  case (Listen b)
  then show ?thesis using assms by simp
qed

lemma run_position:
  "streamPosition (stream_run parse s es) = streamPosition s \<or>
     (\<exists>k page. Fetched k (Inr page) \<in> set es \<and> validated page \<and>
        next_stream_position page = Some (streamPosition (stream_run parse s es)))"
proof (induction es rule: rev_induct)
  case Nil
  show ?case by (simp add: stream_run_Nil)
next
  case (snoc e es)
  let ?m = "stream_run parse s es"
  show ?case
  proof (cases "streamPosition (stream_step parse ?m e) = streamPosition ?m")
    case True
    then show ?thesis using snoc by (auto simp: stream_run_snoc simp del: stream_step.simps)
  next
    case False
    then obtain k page where "e = Fetched k (Inr page)" "validated page"
      "next_stream_position page = Some (streamPosition (stream_step parse ?m e))"
      using step_position [of parse ?m e] by blast
    then show ?thesis by (auto simp: stream_run_snoc simp del: stream_step.simps)
  qed
qed

lemma doLongPoll_no_throw:
  "longPollInfo s \<noteq> None \<Longrightarrow> snd (doLongPoll parse ctx s) \<noteq> Threw x"
  by (auto simp: doLongPoll_def getLongPollInfo_def Let_def split: option.splits)

subsection \<open>One request or one timer at a time\<close>

lemma moves_refl: "moves s s"
  by (simp add: moves_def)

lemma moves_level: "level a = level b \<Longrightarrow> moves a c = moves b c"
  by (simp add: moves_def level_def)

lemma getLongPollInfo_moves: "moves s (fst (getLongPollInfo ctx s))"
  by (simp add: getLongPollInfo_def moves_def)

lemma doLongPoll_moves: "moves s (fst (doLongPoll parse ctx s))"
  by (simp add: doLongPoll_def getLongPollInfo_def moves_def Let_def split: option.splits)

lemma fetchEvents_moves: "moves s (fst (fetchEvents ctx s))"
  by (simp add: fetchEvents_def moves_def)

lemma doLongPoll_then_moves: "moves s (fst (doLongPoll_then parse ctx s d))"
  by (simp add: doLongPoll_then_def getLongPollInfo_moves doLongPoll_moves fetchEvents_moves
      moves_refl)

lemma getLongPollInfo_then_moves: "moves s (fst (getLongPollInfo_then parse ctx s info))"
  using doLongPoll_moves [of "s\<lparr>longPollInfo := Some info, longPollRetries := 0\<rparr>" parse ctx]
    moves_level [of "s\<lparr>longPollInfo := Some info, longPollRetries := 0\<rparr>" s]
  by (simp add: getLongPollInfo_then_def level_def)

lemma fetchEvents_then_moves: "moves s (fst (fetchEvents_then parse ctx s page))"
proof (cases rule: validated_cases [where page = page and s = s])
  case invalid
  then show ?thesis
    using doLongPoll_moves [of "s\<lparr>rateLimiter := Delay (fetchInterval (options s))\<rparr>" parse ctx]
      moves_level [of "s\<lparr>rateLimiter := Delay (fetchInterval (options s))\<rparr>" s]
    by (simp add: fetchEvents_then_invalid level_def)
next
  case (stale es c)
  then show ?thesis
    using doLongPoll_moves
      [of "s\<lparr>rateLimiter := Delay (fetchInterval (options s)), streamPosition := c\<rparr>" parse ctx]
      moves_level
      [of "s\<lparr>rateLimiter := Delay (fetchInterval (options s)), streamPosition := c\<rparr>" s]
    by (simp add: fetchEvents_then_stale level_def)
next
  case (batch es c)
  then show ?thesis
    by (simp add: fetchEvents_then_batch batch_state_simps batch_state_reading
        cleanupDedupFilter_other moves_def)
qed

lemma retryPollInfo_moves: "moves s (retryPollInfo s)"
  by (simp add: retryPollInfo_def moves_def)

lemma catch_of_moves: "moves s (fst (catch_of c s e))"
  by (cases c) (simp_all add: getLongPollInfo_catch_def doLongPoll_catch_def fetchEvents_catch_def
      emit_error_def retryPollInfo_def moves_def)

lemma catch_of_thrown: "snd (catch_of c s e) = Some t \<Longrightarrow> fst (catch_of c s e) = s"
  by (cases c) (simp_all add: getLongPollInfo_catch_def doLongPoll_catch_def fetchEvents_catch_def
      emit_error_def split: if_splits)

lemma reject_moves: "moves s (reject ctx s e)"
proof (induction ctx arbitrary: e)
  case Nil
  show ?case by (simp add: moves_def)
next
  case (Cons c ctx)
  show ?case
  proof (cases "snd (catch_of c s e)")
    case None
    then show ?thesis
      using catch_of_moves [of s c e] by (cases "catch_of c s e") simp
  next
    case (Some t)
    then show ?thesis
      using catch_of_thrown [of c s e t] Cons [of t] by (cases "catch_of c s e") simp
  qed
qed

lemma doLongPoll_threw: "snd (doLongPoll parse ctx s) = Threw e \<Longrightarrow> fst (doLongPoll parse ctx s) = s"
  by (simp add: doLongPoll_def getLongPollInfo_def Let_def split: if_splits option.splits)

lemma getLongPollInfo_then_threw:
  "snd (getLongPollInfo_then parse ctx s info) \<noteq> Threw e"
  by (simp add: getLongPollInfo_then_def doLongPoll_no_throw)

lemma doLongPoll_then_threw:
  "snd (doLongPoll_then parse ctx s d) = Threw e \<Longrightarrow> fst (doLongPoll_then parse ctx s d) = s"
  by (simp add: doLongPoll_then_def doLongPoll_threw getLongPollInfo_def fetchEvents_def
      split: if_splits)

lemma fetchEvents_then_threw:
  "snd (fetchEvents_then parse ctx s page) = Threw e \<Longrightarrow>
     level (fst (fetchEvents_then parse ctx s page)) = level s"
proof (cases rule: validated_cases [where page = page and s = s])
  case invalid
  then show "snd (fetchEvents_then parse ctx s page) = Threw e \<Longrightarrow> ?thesis"
    using doLongPoll_threw [of parse ctx "s\<lparr>rateLimiter := Delay (fetchInterval (options s))\<rparr>" e]
    by (simp add: fetchEvents_then_invalid level_def)
next
  case (stale es c)
  then show "snd (fetchEvents_then parse ctx s page) = Threw e \<Longrightarrow> ?thesis"
    using doLongPoll_threw
      [of parse ctx "s\<lparr>rateLimiter := Delay (fetchInterval (options s)), streamPosition := c\<rparr>" e]
    by (simp add: fetchEvents_then_stale level_def)
next
  case (batch es c)
  then show "snd (fetchEvents_then parse ctx s page) = Threw e \<Longrightarrow> ?thesis"
    by (simp add: fetchEvents_then_batch)
qed

lemma settle_moves:
  assumes "\<And>ctx s v. moves s (fst (f ctx s v))"
    and "\<And>ctx s v e. snd (f ctx s v) = Threw e \<Longrightarrow> level (fst (f ctx s v)) = level s"
  shows "moves s (settle f c ctx s r)"
proof (cases r)
  case (Inl err)
  then show ?thesis by (simp add: settle_Inl reject_moves del: reject.simps)
next
  case (Inr v)
  show ?thesis
  proof (cases "snd (f (c # ctx) s v)")
    case (Threw e)
    then have "level (fst (f (c # ctx) s v)) = level s"
      by (rule assms(2))
    then have "moves s (reject (c # ctx) (fst (f (c # ctx) s v)) e)"
      using reject_moves [of "fst (f (c # ctx) s v)" "c # ctx" e] moves_level by blast
    then show ?thesis
      using Inr Threw by (cases "f (c # ctx) s v") (simp add: settle_def del: reject.simps)
  next
    case Pending
    then show ?thesis
      using Inr assms(1) [of s "c # ctx" v] by (cases "f (c # ctx) s v") (simp add: settle_def)
  next
    case (Settled b)
    then show ?thesis
      using Inr assms(1) [of s "c # ctx" v] by (cases "f (c # ctx) s v") (simp add: settle_def)
  qed
qed

lemma discovered_moves: "moves s (settle (getLongPollInfo_then parse) c ctx s r)"
  by (rule settle_moves) (simp_all add: getLongPollInfo_then_moves getLongPollInfo_then_threw)

lemma polled_moves: "moves s (settle (doLongPoll_then parse) c ctx s r)"
  by (rule settle_moves) (simp_all add: doLongPoll_then_moves doLongPoll_then_threw)

lemma fetched_moves: "moves s (settle (fetchEvents_then parse) c ctx s r)"
  by (rule settle_moves) (simp_all add: fetchEvents_then_moves fetchEvents_then_threw)

lemma serial_moves:
  assumes "pending a = []" and "timers a = []" and "reading a" and "moves a s'"
  shows "serial s'"
  using assms by (auto simp: serial_def moves_def)

lemma serial_awaits:
  assumes "serial s" and "awaits s k r"
  shows "pending (answered k s) = [] \<and> timers (answered k s) = [] \<and> reading (answered k s)"
proof -
  have "pending s \<noteq> []"
    using assms(2) by (auto simp: awaits_def)
  then have "length (pending s) = 1" "timers s = []" "reading s"
    using assms(1) by (cases "pending s"; auto simp: serial_def)+
  moreover have "k = 0"
    using assms(2) \<open>length (pending s) = 1\<close> by (simp add: awaits_def)
  ultimately show ?thesis by (cases "pending s") (simp_all add: answered_def)
qed

lemma serial_destroy: "serial s \<Longrightarrow> serial (destroy s)"
  by (auto simp: serial_def destroy_def destroy_polyfill_def readable_destroy_def
      internal_destroy_def filter_empty_conv)

lemma serial_step:
  assumes "serial s"
  shows "serial (stream_step parse s e)"
proof (cases e)
  case Read
  show ?thesis
  proof (cases "reading s")
    case True
    then show ?thesis using Read assms by simp
  next
    case False
    then have "pending s = []" "timers s = []"
      using assms by (simp_all add: serial_def)
    then show ?thesis
      using Read False getLongPollInfo_moves [of "s\<lparr>reading := True\<rparr>" "[]"]
        serial_moves [of "s\<lparr>reading := True\<rparr>"]
      by (simp add: internal_read_def)
  qed
next
  case (Discovered k r)
  then show ?thesis
    using assms serial_awaits [of s k Discovery]
      serial_moves [OF _ _ _ discovered_moves [of "answered k s" parse Discovery "chains_around s k" r]]
    by simp
next
  case (Polled k r)
  then show ?thesis
    using assms serial_awaits [of s k LongPoll]
      serial_moves [OF _ _ _ polled_moves [of "answered k s" parse LongPoll "chains_around s k" r]]
    by simp
next
  case (Fetched k r)
  then show ?thesis
    using assms serial_awaits [of s k EventsGet]
      serial_moves [OF _ _ _ fetched_moves [of "answered k s" parse EventsGet "chains_around s k" r]]
    by simp
next
  case (TimerFired h)
  show ?thesis
  proof (cases "h \<in> set (timers s)")
    case False
    then show ?thesis using TimerFired assms by simp
  next
    case True
    then have "timers s = [h]" "pending s = []" "reading s"
      using assms by (cases "timers s"; auto simp: serial_def)+
    then show ?thesis
      using TimerFired True
        getLongPollInfo_moves [of "s\<lparr>timers := filter (\<lambda>x. x \<noteq> h) (timers s)\<rparr>" "[]"]
        serial_moves [of "s\<lparr>timers := filter (\<lambda>x. x \<noteq> h) (timers s)\<rparr>"]
      by simp
  qed
next
  case Destroy
  then show ?thesis using assms by (simp add: serial_destroy)
next
  case (Listen b)
  then show ?thesis using assms by (simp add: serial_def)
qed

lemma serial_run: "serial s \<Longrightarrow> serial (stream_run parse s es)"
  by (induction es rule: rev_induct) (simp_all add: stream_run_Nil stream_run_snoc serial_step)

lemma serial_new: "serial (new_stream native position opts)"
  by (simp add: serial_def new_stream_def)

subsection \<open>Rejections, with and without a listener\<close>

lemma reject_heard:
  assumes "errorListeners s"
  shows "reject (Discovery # ctx) s err =
           (if \<not> authExpired err then retryPollInfo (act (EmitError err) s)
            else act (EmitError err) s)"
    and "reject (EventsGet # ctx) s err = retryPollInfo (act (EmitError err) s)"
  using assms by (simp_all add: getLongPollInfo_catch_def fetchEvents_catch_def emit_error_def)

lemma reject_long_poll: "reject (LongPoll # ctx) s err = retryPollInfo s"
  by (simp add: doLongPoll_catch_def)

lemma reject_unheard:
  assumes "\<not> errorListeners s"
  shows "reject ctx s err =
           (if LongPoll \<in> set ctx then retryPollInfo s else act (Unhandled err) s)"
proof (induction ctx)
  case Nil
  show ?case by simp
next
  case (Cons c ctx)
  then show ?case
    using assms
    by (cases c)
       (simp_all add: getLongPollInfo_catch_def fetchEvents_catch_def doLongPoll_catch_def
          emit_error_def)
qed

lemma retryPollInfo_actions:
  "actions (retryPollInfo s) =
     actions s @ (if destroyed s then [] else [SetTimeout (timerCount s) (retryDelay (options s))])"
  by (simp add: retryPollInfo_def)

subsection \<open>A destroyed stream stays destroyed\<close>

lemma moves_destroyed: "moves s s' \<Longrightarrow> destroyed s' = destroyed s"
  by (simp add: moves_def)

lemma step_destroyed: "destroyed s \<Longrightarrow> destroyed (stream_step parse s e)"
proof (cases e)
  case Read
  then show "destroyed s \<Longrightarrow> ?thesis"
    using moves_destroyed [OF getLongPollInfo_moves [of "s\<lparr>reading := True\<rparr>" "[]"]]
    by (simp add: internal_read_def)
next
  case (Discovered k r)
  then show "destroyed s \<Longrightarrow> ?thesis"
    using moves_destroyed
      [OF discovered_moves [of "answered k s" parse Discovery "chains_around s k" r]]
    by simp
next
  case (Polled k r)
  then show "destroyed s \<Longrightarrow> ?thesis"
    using moves_destroyed
      [OF polled_moves [of "answered k s" parse LongPoll "chains_around s k" r]]
    by simp
next
  case (Fetched k r)
  then show "destroyed s \<Longrightarrow> ?thesis"
    using moves_destroyed
      [OF fetched_moves [of "answered k s" parse EventsGet "chains_around s k" r]]
    by simp
next
  case (TimerFired h)
  then show "destroyed s \<Longrightarrow> ?thesis"
    using moves_destroyed
      [OF getLongPollInfo_moves [of "s\<lparr>timers := filter (\<lambda>x. x \<noteq> h) (timers s)\<rparr>" "[]"]]
    by simp
next
  case Destroy
  then show "destroyed s \<Longrightarrow> ?thesis"
    by (simp add: destroy_def destroy_polyfill_def readable_destroy_def)
next
  case (Listen b)
  then show "destroyed s \<Longrightarrow> ?thesis" by simp
qed

lemma run_destroyed: "destroyed s \<Longrightarrow> destroyed (stream_run parse s es)"
  by (induction es rule: rev_induct) (simp_all add: stream_run_Nil stream_run_snoc step_destroyed)

lemma destroy_twice: "destroy (destroy s) = destroy s"
  by (simp add: destroy_def destroy_polyfill_def readable_destroy_def internal_destroy_def)

lemma catch_of_native: "readableDestroy (fst (catch_of c s e)) = readableDestroy s"
  by (cases c) (simp_all add: getLongPollInfo_catch_def doLongPoll_catch_def fetchEvents_catch_def
      emit_error_def retryPollInfo_def)

lemma reject_native: "readableDestroy (reject ctx s e) = readableDestroy s"
proof (induction ctx arbitrary: s e)
  case Nil
  show ?case by simp
next
  case (Cons c ctx)
  show ?case
    using Cons [of "fst (catch_of c s e)"] catch_of_native [of c s e]
    by (cases "catch_of c s e") (auto split: option.splits)
qed

lemma getLongPollInfo_then_native:
  "readableDestroy (fst (getLongPollInfo_then parse ctx s info)) = readableDestroy s"
  using doLongPoll_only_requests [of "s\<lparr>longPollInfo := Some info, longPollRetries := 0\<rparr>" parse ctx]
  by (simp add: getLongPollInfo_then_def only_requests_def)

lemma doLongPoll_then_native:
  "readableDestroy (fst (doLongPoll_then parse ctx s d)) = readableDestroy s"
  using doLongPoll_then_only_requests [of s parse ctx d] by (simp add: only_requests_def)

lemma foldl_push_native: "readableDestroy (foldl push_event s es) = readableDestroy s"
  by (induction es arbitrary: s) (simp_all add: push_event_def)

lemma fetchEvents_then_native:
  "readableDestroy (fst (fetchEvents_then parse ctx s page)) = readableDestroy s"
proof (cases rule: validated_cases [where page = page and s = s])
  case invalid
  then show ?thesis
    using doLongPoll_only_requests
      [of "s\<lparr>rateLimiter := Delay (fetchInterval (options s))\<rparr>" parse ctx]
    by (simp add: fetchEvents_then_invalid only_requests_def)
next
  case (stale es c)
  then show ?thesis
    using doLongPoll_only_requests
      [of "s\<lparr>rateLimiter := Delay (fetchInterval (options s)), streamPosition := c\<rparr>" parse ctx]
    by (simp add: fetchEvents_then_stale only_requests_def)
next
  case (batch es c)
  then show ?thesis
    by (simp add: fetchEvents_then_batch batch_state_def Let_def foldl_push_native
        cleanupDedupFilter_other)
qed

lemma step_readableDestroy: "readableDestroy (stream_step parse s e) = readableDestroy s"
proof (cases e)
  case Read
  then show ?thesis
    using getLongPollInfo_only_requests [of "s\<lparr>reading := True\<rparr>" "[]"]
    by (simp add: internal_read_def only_requests_def)
next
  case (Discovered k r)
  have "readableDestroy (settle (getLongPollInfo_then parse) Discovery (chains_around s k) (answered k s) r)
      = readableDestroy (answered k s)"
    by (rule settle_keeps) (simp_all add: getLongPollInfo_then_native reject_native del: reject.simps)
  then show ?thesis using Discovered by simp
next
  case (Polled k r)
  have "readableDestroy (settle (doLongPoll_then parse) LongPoll (chains_around s k) (answered k s) r)
      = readableDestroy (answered k s)"
    by (rule settle_keeps) (simp_all add: doLongPoll_then_native reject_native del: reject.simps)
  then show ?thesis using Polled by simp
next
  case (Fetched k r)
  have "readableDestroy (settle (fetchEvents_then parse) EventsGet (chains_around s k) (answered k s) r)
      = readableDestroy (answered k s)"
    by (rule settle_keeps) (simp_all add: fetchEvents_then_native reject_native del: reject.simps)
  then show ?thesis using Fetched by simp
next
  case (TimerFired h)
  then show ?thesis
    using getLongPollInfo_only_requests [of "s\<lparr>timers := filter (\<lambda>x. x \<noteq> h) (timers s)\<rparr>" "[]"]
    by (simp add: only_requests_def)
next
  case Destroy
  then show ?thesis
    by (simp add: destroy_def destroy_polyfill_def readable_destroy_def internal_destroy_def)
next
  case (Listen b)
  then show ?thesis by simp
qed

lemma run_readableDestroy: "readableDestroy (stream_run parse s es) = readableDestroy s"
  by (induction es rule: rev_induct) (simp_all add: stream_run_Nil stream_run_snoc step_readableDestroy)

subsection \<open>Events requests are made inside the chain of a long poll\<close>

lemma chained_pending: "pending s' = pending s \<Longrightarrow> chained s' = chained s"
  by (simp add: chained_def)

lemma getLongPollInfo_chained: "chained s \<Longrightarrow> chained (fst (getLongPollInfo ctx s))"
  by (simp add: getLongPollInfo_def chained_def)

lemma doLongPoll_chained: "chained s \<Longrightarrow> chained (fst (doLongPoll parse ctx s))"
  by (simp add: doLongPoll_def getLongPollInfo_def chained_def Let_def split: option.splits)

lemma fetchEvents_chained:
  "chained s \<Longrightarrow> LongPoll \<in> set ctx \<Longrightarrow> chained (fst (fetchEvents ctx s))"
  by (simp add: fetchEvents_def chained_def)

lemma doLongPoll_then_chained:
  "chained s \<Longrightarrow> LongPoll \<in> set ctx \<Longrightarrow> chained (fst (doLongPoll_then parse ctx s d))"
  by (simp add: doLongPoll_then_def getLongPollInfo_chained doLongPoll_chained fetchEvents_chained)

lemma getLongPollInfo_then_chained:
  assumes "chained s"
  shows "chained (fst (getLongPollInfo_then parse ctx s info))"
proof -
  have "chained (s\<lparr>longPollInfo := Some info, longPollRetries := 0\<rparr>)"
    using assms by (simp add: chained_def)
  then show ?thesis
    unfolding getLongPollInfo_then_def by (rule doLongPoll_chained)
qed

lemma fetchEvents_then_chained:
  assumes "chained s"
  shows "chained (fst (fetchEvents_then parse ctx s page))"
proof (cases rule: validated_cases [where page = page and s = s])
  case invalid
  have "chained (s\<lparr>rateLimiter := Delay (fetchInterval (options s))\<rparr>)"
    using assms by (simp add: chained_def)
  then have "chained (fst (doLongPoll parse ctx (s\<lparr>rateLimiter := Delay (fetchInterval (options s))\<rparr>)))"
    by (rule doLongPoll_chained)
  then show ?thesis using invalid by (simp add: fetchEvents_then_invalid)
next
  case (stale es c)
  have "chained (s\<lparr>rateLimiter := Delay (fetchInterval (options s)), streamPosition := c\<rparr>)"
    using assms by (simp add: chained_def)
  then have "chained (fst (doLongPoll parse ctx
      (s\<lparr>rateLimiter := Delay (fetchInterval (options s)), streamPosition := c\<rparr>)))"
    by (rule doLongPoll_chained)
  then show ?thesis using stale by (simp add: fetchEvents_then_stale)
next
  case (batch es c)
  then show ?thesis
    using assms
    by (simp add: fetchEvents_then_batch batch_state_simps cleanupDedupFilter_other chained_def)
qed

lemma reject_chained: "chained (reject ctx s e) = chained s"
  by (rule chained_pending) (rule reject_keeps)

lemma settle_chained:
  assumes "chained s" and "\<And>v. chained (fst (f (c # ctx) s v))"
  shows "chained (settle f c ctx s r)"
proof (cases r)
  case (Inl err)
  then show ?thesis using assms(1) by (simp add: settle_Inl reject_chained del: reject.simps)
next
  case (Inr v)
  then show ?thesis
    using assms(2) [of v]
    by (cases "f (c # ctx) s v")
       (simp add: settle_def reject_chained split: outcome.splits del: reject.simps)
qed

lemma answered_chained: "chained s \<Longrightarrow> chained (answered k s)"
  using answered_pending [of k s] by (auto simp: chained_def)

lemma step_chained:
  assumes "chained s"
  shows "chained (stream_step parse s e)"
proof (cases e)
  case Read
  have "chained (s\<lparr>reading := True\<rparr>)"
    using assms by (simp add: chained_def)
  then show ?thesis
    using Read assms by (simp add: internal_read_def getLongPollInfo_chained)
next
  case (Discovered k r)
  then show ?thesis
    using assms
    by (simp add: settle_chained answered_chained getLongPollInfo_then_chained)
next
  case (Polled k r)
  then show ?thesis
    using assms
    by (simp add: settle_chained answered_chained doLongPoll_then_chained)
next
  case (Fetched k r)
  then show ?thesis
    using assms
    by (simp add: settle_chained answered_chained fetchEvents_then_chained)
next
  case (TimerFired h)
  have "chained (s\<lparr>timers := filter (\<lambda>x. x \<noteq> h) (timers s)\<rparr>)"
    using assms by (simp add: chained_def)
  then show ?thesis
    using TimerFired assms by (simp add: getLongPollInfo_chained)
next
  case Destroy
  then show ?thesis
    using assms chained_pending [of "destroy s" s] by (simp add: destroy_effect)
next
  case (Listen b)
  then show ?thesis using assms by (simp add: chained_def)
qed

lemma chained_run: "chained s \<Longrightarrow> chained (stream_run parse s es)"
  by (induction es rule: rev_induct) (simp_all add: stream_run_Nil stream_run_snoc step_chained)

lemma chained_new: "chained (new_stream native position opts)"
  by (simp add: chained_def new_stream_def)

lemma chained_awaits:
  assumes "chained s" and "awaits s k EventsGet"
  shows "LongPoll \<in> set (chains_around s k)"
proof -
  have "pending s ! k \<in> set (pending s)" "fst (pending s ! k) = EventsGet"
    using assms(2) by (simp_all add: awaits_def)
  then show ?thesis
    using assms(1) unfolding chained_def chains_around_def by blast
qed

subsection \<open>The sample streams\<close>

lemma discovering_eq:
  "discovering =
     \<lparr>streamPosition = Str ''1'', longPollInfo = None, longPollRetries = 0, dedupHash = [],
      rateLimiter = Ready, options = DEFAULT_OPTIONS, retryTimer = None, destroyed = False,
      paused = False, reading = True, errorListeners = True, readableDestroy = True,
      timerCount = 0, timers = [], pending = [(Discovery, [])],
      actions = [GetLongPollInfoRequest]\<rparr>"
  by (simp add: discovering_def stream_run_def new_stream_def internal_read_def getLongPollInfo_def
      send_def)

lemma polling_eq:
  "polling =
     \<lparr>streamPosition = Str ''1'', longPollInfo = Some info0, longPollRetries = 1, dedupHash = [],
      rateLimiter = Ready, options = DEFAULT_OPTIONS, retryTimer = None, destroyed = False,
      paused = False, reading = True, errorListeners = True, readableDestroy = True,
      timerCount = 0, timers = [], pending = [(LongPoll, [Discovery])],
      actions = [GetLongPollInfoRequest,
        LongPollRequest ''https://poll.example/subscribe''
          [(''channel'', Single ''12''), (''stream_position'', Position (Str ''1''))] 610000]\<rparr>"
  by (simp add: polling_def stream_run_def new_stream_def internal_read_def getLongPollInfo_def
      send_def awaits_def answered_def chains_around_def settle_def getLongPollInfo_then_def
      doLongPoll_def indexOf_def sample_parse_def info0_def Let_def)

lemma fetching_eq:
  "fetching =
     \<lparr>streamPosition = Str ''1'', longPollInfo = Some info0, longPollRetries = 1, dedupHash = [],
      rateLimiter = Ready, options = DEFAULT_OPTIONS, retryTimer = None, destroyed = False,
      paused = False, reading = True, errorListeners = True, readableDestroy = True,
      timerCount = 0, timers = [], pending = [(EventsGet, [LongPoll, Discovery])],
      actions = [GetLongPollInfoRequest,
        LongPollRequest ''https://poll.example/subscribe''
          [(''channel'', Single ''12''), (''stream_position'', Position (Str ''1''))] 610000,
        EventsGetRequest Ready (Str ''1'') 500]\<rparr>"
  by (simp add: fetching_def stream_run_def new_stream_def internal_read_def getLongPollInfo_def
      send_def awaits_def answered_def chains_around_def settle_def getLongPollInfo_then_def
      doLongPoll_def doLongPoll_then_def fetchEvents_def indexOf_def sample_parse_def info0_def
      new_change_def Let_def)

lemma retrying_eq:
  "retrying = polling\<lparr>retryTimer := Some 0, timerCount := 1, timers := [0], pending := [],
     actions := actions polling @ [SetTimeout 0 1000]\<rparr>"
  by (simp add: retrying_def stream_run_def new_stream_def internal_read_def getLongPollInfo_def
      send_def awaits_def answered_def chains_around_def settle_def getLongPollInfo_then_def
      doLongPoll_def indexOf_def sample_parse_def info0_def Let_def polling_eq
      doLongPoll_catch_def retryPollInfo_def DEFAULT_OPTIONS_def)

lemma legacy_eq: "legacy = retrying\<lparr>readableDestroy := False\<rparr>"
  by (simp add: legacy_def stream_run_def new_stream_def internal_read_def getLongPollInfo_def
      send_def awaits_def answered_def chains_around_def settle_def getLongPollInfo_then_def
      doLongPoll_def indexOf_def sample_parse_def info0_def Let_def polling_eq retrying_eq
      doLongPoll_catch_def retryPollInfo_def DEFAULT_OPTIONS_def)

lemma unheard_discovering: "unheard [Read] = discovering\<lparr>errorListeners := False\<rparr>"
  by (simp add: unheard_def discovering_eq stream_run_def new_stream_def internal_read_def
      getLongPollInfo_def send_def)

lemma unheard_fetching:
  "unheard [Read, Discovered 0 (Inr info0), Polled 0 (Inr new_change)] =
     fetching\<lparr>errorListeners := False\<rparr>"
  by (simp add: unheard_def fetching_eq stream_run_def new_stream_def internal_read_def
      getLongPollInfo_def send_def awaits_def answered_def chains_around_def settle_def
      getLongPollInfo_then_def doLongPoll_def doLongPoll_then_def fetchEvents_def indexOf_def
      sample_parse_def info0_def new_change_def Let_def)

lemma polling_destroyed:
  "stream_run sample_parse (new_stream True (Str ''1'') DEFAULT_OPTIONS)
     [Listen True, Read, Discovered 0 (Inr info0), Destroy] = destroy polling"
  by (simp add: polling_def stream_run_def)

subsection \<open>Claims\<close>

text \<open>
  C2, amended. When the answer to an events request arrives, the stream pushes those
  entries of a validated page whose id is not recorded in the dedup hash at that moment,
  in the order of the page, and nothing else: an id recorded when the answer arrives is
  not pushed by that fetch. The filter runs before any entry of the page is recorded, so
  an entry repeated within one page is pushed each time it occurs.
\<close>

theorem fetch_emits_unseen_entries:
  "awaits s k EventsGet \<Longrightarrow>
     pushed (actions (stream_step parse s (Fetched k (Inr page)))) =
       pushed (actions s) @
         (case entries page of
            Some es \<Rightarrow>
              if validated page then filter (\<lambda>e. \<not> seen (dedupHash s) (event_id e)) es else []
          | None \<Rightarrow> [])"
  by (simp add: fetch_settled_pushed fetchEvents_then_pushed fresh_entries_def split: option.splits)

text \<open>The same at sample values: B is recorded, and the page is [A, B, A, C].\<close>

theorem fetch_emits_unseen_entries_witness:
  "awaits (fetching\<lparr>dedupHash := [(''B'', True)]\<rparr>) 0 EventsGet \<and>
   pushed (actions (stream_step sample_parse (fetching\<lparr>dedupHash := [(''B'', True)]\<rparr>)
     (Fetched 0 (Inr page_ABAC)))) = [evA, evA, evC]"
  using fetch_emits_unseen_entries [of "fetching\<lparr>dedupHash := [(''B'', True)]\<rparr>" 0 sample_parse page_ABAC]
  by (simp add: fetching_eq awaits_def page_ABAC_def validated_def truthy_def seen_def pushed_def
      evA_def evB_def evC_def)

text \<open>
  C2 as stated fails: with nothing recorded, the page [A, B, A, C] is pushed as A, B, A, C,
  the repeated A twice.
\<close>

theorem repeated_entry_counterexample:
  "dedupHash fetching = [] \<and> awaits fetching 0 EventsGet \<and>
   pushed (actions (stream_step sample_parse fetching (Fetched 0 (Inr page_ABAC)))) =
     [evA, evB, evA, evC] \<and>
   pushed (actions (stream_step sample_parse fetching (Fetched 0 (Inr page_ABAC)))) \<noteq>
     [evA, evB, evC]"
  by (simp add: fetching_eq awaits_def answered_def chains_around_def settle_def
      fetchEvents_then_def page_ABAC_def truthy_def seen_def push_event_def act_def pushed_def
      evA_def evB_def evC_def DEFAULT_OPTIONS_def Let_def)

text \<open>
  C3, amended. With a listener for \<^verbatim>\<open>'error'\<close> attached, a failed discovery and a failed
  fetch emit the error and then arm a timer of \<open>retryDelay\<close> ms, unless the stream is
  destroyed and, for the discovery, unless the error is marked \<open>authExpired\<close>. A failed
  long poll emits nothing, listener or not, and arms the timer unless the stream is
  destroyed. With no listener attached, \<^verbatim>\<open>emit\<close> throws in the handler of a failed
  discovery or fetch, before the retry: nothing is emitted; if the request was made
  inside the chain of a long poll, as every fetch of a stream run from its construction
  is, the handler of that chain arms the timer, unless the stream is destroyed; if not,
  as for the discovery that \<^verbatim>\<open>_read\<close> or the timer starts, whose promise is dropped,
  the error ends as an unhandled rejection and no timer is armed. The timer, when it
  fires, asks for long poll info again. \<^verbatim>\<open>_read\<close> is a call of \<^verbatim>\<open>getLongPollInfo\<close>,
  which returns a promise and does not throw.
\<close>

theorem feed_errors_retry:
  "(errorListeners s \<and> awaits s k Discovery \<longrightarrow>
      actions (stream_step parse s (Discovered k (Inl err))) =
        actions s @ [EmitError err] @
          (if authExpired err \<or> destroyed s then []
           else [SetTimeout (timerCount s) (retryDelay (options s))])) \<and>
   (awaits s k LongPoll \<longrightarrow>
      actions (stream_step parse s (Polled k (Inl err))) =
        actions s @
          (if destroyed s then [] else [SetTimeout (timerCount s) (retryDelay (options s))])) \<and>
   (errorListeners s \<and> awaits s k EventsGet \<longrightarrow>
      actions (stream_step parse s (Fetched k (Inl err))) =
        actions s @ [EmitError err] @
          (if destroyed s then [] else [SetTimeout (timerCount s) (retryDelay (options s))])) \<and>
   (\<not> errorListeners s \<and> awaits s k Discovery \<longrightarrow>
      actions (stream_step parse s (Discovered k (Inl err))) =
        actions s @
          (if LongPoll \<in> set (chains_around s k)
           then if destroyed s then [] else [SetTimeout (timerCount s) (retryDelay (options s))]
           else [Unhandled err])) \<and>
   (\<not> errorListeners s \<and> awaits s k EventsGet \<longrightarrow>
      actions (stream_step parse s (Fetched k (Inl err))) =
        actions s @
          (if LongPoll \<in> set (chains_around s k)
           then if destroyed s then [] else [SetTimeout (timerCount s) (retryDelay (options s))]
           else [Unhandled err])) \<and>
   (\<not> destroyed s \<longrightarrow>
      timers (retryPollInfo s) = timers s @ [timerCount s] \<and>
      retryTimer (retryPollInfo s) = Some (timerCount s) \<and>
      actions (stream_step parse (retryPollInfo s) (TimerFired (timerCount s))) =
        actions s @ [SetTimeout (timerCount s) (retryDelay (options s)), GetLongPollInfoRequest] \<and>
      pending (stream_step parse (retryPollInfo s) (TimerFired (timerCount s))) =
        pending s @ [(Discovery, [])]) \<and>
   (\<forall>x. snd (getLongPollInfo ctx s) \<noteq> Threw x) \<and>
   actions (stream_step parse s Read) =
     actions s @ (if reading s \<or> destroyed s then [] else [GetLongPollInfoRequest]) \<and>
   pending (stream_step parse s Read) =
     pending s @ (if reading s \<or> destroyed s then [] else [(Discovery, [])]) \<and>
   (s = stream_run parse (new_stream native position opts) es \<and> awaits s k EventsGet \<longrightarrow>
      LongPoll \<in> set (chains_around s k))"
proof -
  have heard: "errorListeners (answered k s) = errorListeners s"
    by (simp add: answered_def)
  have inside: "s = stream_run parse (new_stream native position opts) es \<and> awaits s k EventsGet \<longrightarrow>
      LongPoll \<in> set (chains_around s k)"
    using chained_awaits [OF chained_run [OF chained_new]] by blast
  show ?thesis
    using inside
    by (simp add: settle_Inl reject_heard reject_long_poll reject_unheard heard
        retryPollInfo_actions retryPollInfo_def getLongPollInfo_def internal_read_def
        del: reject.simps)
       blast
qed

text \<open>
  The same at sample values. With a listener: a time-out and an auth-expired error of a
  discovery, and an auth-expired error of a long poll and of a fetch. Without one: a
  time-out of the discovery that \<^verbatim>\<open>_read\<close> started, and of a fetch.
\<close>

theorem feed_errors_retry_witness:
  "errorListeners discovering \<and> awaits discovering 0 Discovery \<and> awaits polling 0 LongPoll \<and>
   errorListeners fetching \<and> awaits fetching 0 EventsGet \<and> \<not> destroyed discovering \<and>
   actions (stream_step sample_parse discovering (Discovered 0 (Inl timed_out))) =
     [GetLongPollInfoRequest, EmitError timed_out, SetTimeout 0 1000] \<and>
   actions (stream_step sample_parse discovering (Discovered 0 (Inl expired_tokens))) =
     [GetLongPollInfoRequest, EmitError expired_tokens] \<and>
   actions (stream_step sample_parse polling (Polled 0 (Inl expired_tokens))) =
     actions polling @ [SetTimeout 0 1000] \<and>
   actions (stream_step sample_parse fetching (Fetched 0 (Inl expired_tokens))) =
     actions fetching @ [EmitError expired_tokens, SetTimeout 0 1000] \<and>
   \<not> errorListeners (unheard [Read]) \<and> awaits (unheard [Read]) 0 Discovery \<and>
   actions (stream_step sample_parse (unheard [Read]) (Discovered 0 (Inl timed_out))) =
     [GetLongPollInfoRequest, Unhandled timed_out] \<and>
   timers (stream_step sample_parse (unheard [Read]) (Discovered 0 (Inl timed_out))) = [] \<and>
   \<not> errorListeners (unheard [Read, Discovered 0 (Inr info0), Polled 0 (Inr new_change)]) \<and>
   awaits (unheard [Read, Discovered 0 (Inr info0), Polled 0 (Inr new_change)]) 0 EventsGet \<and>
   actions (stream_step sample_parse
       (unheard [Read, Discovered 0 (Inr info0), Polled 0 (Inr new_change)])
       (Fetched 0 (Inl timed_out))) =
     actions fetching @ [SetTimeout 0 1000] \<and>
   LongPoll \<in> set (chains_around
     (unheard [Read, Discovered 0 (Inr info0), Polled 0 (Inr new_change)]) 0) \<and>
   actions (stream_step sample_parse (retryPollInfo discovering) (TimerFired 0)) =
     [GetLongPollInfoRequest, SetTimeout 0 1000, GetLongPollInfoRequest]"
  using feed_errors_retry [of discovering 0 sample_parse timed_out "[]"]
    feed_errors_retry [of discovering 0 sample_parse expired_tokens "[]"]
    feed_errors_retry [of polling 0 sample_parse expired_tokens "[]"]
    feed_errors_retry [of fetching 0 sample_parse expired_tokens "[]"]
    feed_errors_retry [of "unheard [Read]" 0 sample_parse timed_out "[]"]
    feed_errors_retry [of "unheard [Read, Discovered 0 (Inr info0), Polled 0 (Inr new_change)]" 0
      sample_parse timed_out "[]" True "Str ''1''" DEFAULT_OPTIONS
      "[Read, Discovered 0 (Inr info0), Polled 0 (Inr new_change)]"]
  by (simp add: unheard_def [symmetric])
     (simp add: unheard_discovering unheard_fetching discovering_eq polling_eq fetching_eq
      awaits_def chains_around_def answered_def settle_def getLongPollInfo_catch_def
      emit_error_def act_def timed_out_def expired_tokens_def DEFAULT_OPTIONS_def)

text \<open>
  C3 as stated fails: the error of a long poll is not emitted, with a listener attached,
  though the retry is scheduled.
\<close>

theorem long_poll_error_counterexample:
  "errorListeners polling \<and> awaits polling 0 LongPoll \<and> \<not> destroyed polling \<and>
   emitted (actions (stream_step sample_parse polling (Polled 0 (Inl timed_out)))) = [] \<and>
   timed_out \<notin> set (emitted (actions (stream_step sample_parse polling (Polled 0 (Inl timed_out))))) \<and>
   timeouts (actions (stream_step sample_parse polling (Polled 0 (Inl timed_out)))) = [1000]"
  by (simp add: polling_eq awaits_def answered_def chains_around_def settle_def doLongPoll_catch_def
      retryPollInfo_def emitted_def timeouts_def DEFAULT_OPTIONS_def)

text \<open>
  C5. In every state \<open>s\<close> the stream reaches from its construction: an event that changes
  \<open>streamPosition\<close> is the answer to an events request that is out, carrying a validated
  page (entries and a truthy next position), and the new position is that page's
  \<open>next_stream_position\<close>; so the position of \<open>s\<close> is the initial one or the
  next position of a validated page among the answers so far. A page that is not
  validated sends the stream back to \<^verbatim>\<open>doLongPoll\<close>, which does not throw: the position
  stays, no error is emitted and nothing is pushed.
\<close>

theorem stream_position_only_from_validated_fetch:
  assumes "s = stream_run parse (new_stream native position opts) es"
  shows
    "(streamPosition (stream_step parse s e) \<noteq> streamPosition s \<longrightarrow>
        (\<exists>k page. e = Fetched k (Inr page) \<and> awaits s k EventsGet \<and> validated page \<and>
           next_stream_position page = Some (streamPosition (stream_step parse s e)))) \<and>
     (streamPosition s = position \<or>
        (\<exists>k page. Fetched k (Inr page) \<in> set es \<and> validated page \<and>
           next_stream_position page = Some (streamPosition s))) \<and>
     (awaits s k EventsGet \<and> \<not> validated page \<longrightarrow>
        stream_step parse s (Fetched k (Inr page)) =
          fst (doLongPoll parse (EventsGet # chains_around s k) ((answered k s)\<lparr>rateLimiter := Delay (fetchInterval (options s))\<rparr>)) \<and>
        (\<forall>x. snd (doLongPoll parse (EventsGet # chains_around s k) ((answered k s)\<lparr>rateLimiter := Delay (fetchInterval (options s))\<rparr>))
               \<noteq> Threw x) \<and>
        streamPosition (stream_step parse s (Fetched k (Inr page))) = streamPosition s \<and>
        emitted (actions (stream_step parse s (Fetched k (Inr page)))) = emitted (actions s) \<and>
        pushed (actions (stream_step parse s (Fetched k (Inr page)))) = pushed (actions s))"
proof (intro conjI impI)
  assume "streamPosition (stream_step parse s e) \<noteq> streamPosition s"
  then show "\<exists>k page. e = Fetched k (Inr page) \<and> awaits s k EventsGet \<and> validated page \<and>
           next_stream_position page = Some (streamPosition (stream_step parse s e))"
    by (rule step_position)
next
  show "streamPosition s = position \<or>
        (\<exists>k page. Fetched k (Inr page) \<in> set es \<and> validated page \<and>
           next_stream_position page = Some (streamPosition s))"
    using run_position [of parse "new_stream native position opts" es]
    unfolding assms by (simp add: new_stream_def)
next
  assume a: "awaits s k EventsGet \<and> \<not> validated page"
  let ?a = "(answered k s)\<lparr>rateLimiter := Delay (fetchInterval (options s))\<rparr>"
  let ?c = "EventsGet # chains_around s k"
  have "poll_ready s"
    unfolding assms by (rule poll_ready_run) (rule poll_ready_new)
  moreover have "EventsGet \<in> fst ` set (pending s)"
    using a awaits_pending by blast
  ultimately have info: "longPollInfo ?a \<noteq> None"
    by (auto simp: poll_ready_def)
  then have nt: "\<forall>x. snd (doLongPoll parse ?c ?a) \<noteq> Threw x"
    using doLongPoll_no_throw by blast
  have then_eq: "fetchEvents_then parse ?c (answered k s) page = doLongPoll parse ?c ?a"
    using a by (simp add: fetchEvents_then_invalid)
  show st: "stream_step parse s (Fetched k (Inr page)) = fst (doLongPoll parse ?c ?a)"
    using a nt by (simp add: settle_Inr then_eq split: outcome.splits)
  show "\<forall>x. snd (doLongPoll parse ?c ?a) \<noteq> Threw x" by (rule nt)
  have "only_requests ?a (fst (doLongPoll parse ?c ?a))"
    by (rule doLongPoll_only_requests)
  then show "streamPosition (stream_step parse s (Fetched k (Inr page))) = streamPosition s"
    and "emitted (actions (stream_step parse s (Fetched k (Inr page)))) = emitted (actions s)"
    and "pushed (actions (stream_step parse s (Fetched k (Inr page)))) = pushed (actions s)"
    unfolding st by (simp_all add: only_requests_def)
qed

text \<open>
  The same at sample values: a page whose next position is the number 0 is not validated,
  and the stream polls again at position 1; the page [B, C] moves it to position 3.
\<close>

theorem stream_position_only_from_validated_fetch_witness:
  "awaits fetching 0 EventsGet \<and> \<not> validated page_empty \<and> validated page_BC \<and>
   streamPosition (stream_step sample_parse fetching (Fetched 0 (Inr page_empty))) = Str ''1'' \<and>
   emitted (actions (stream_step sample_parse fetching (Fetched 0 (Inr page_empty)))) = [] \<and>
   actions (stream_step sample_parse fetching (Fetched 0 (Inr page_empty))) =
     actions fetching @
       [LongPollRequest ''https://poll.example/subscribe''
          [(''channel'', Single ''12''), (''stream_position'', Position (Str ''1''))] 610000] \<and>
   streamPosition (stream_step sample_parse fetching (Fetched 0 (Inr page_BC))) = Str ''3''"
  using stream_position_only_from_validated_fetch [of fetching sample_parse True "Str ''1''"
      DEFAULT_OPTIONS "[Listen True, Read, Discovered 0 (Inr info0), Polled 0 (Inr new_change)]"
      "Fetched 0 (Inr page_BC)" 0 page_empty]
  by (simp add: fetching_def [symmetric])
     (simp add: fetching_eq awaits_def answered_def chains_around_def settle_def
      fetchEvents_then_def page_BC_def
      page_empty_def validated_def truthy_def seen_def push_event_def act_def send_def
      doLongPoll_def indexOf_def sample_parse_def info0_def evB_def evC_def emitted_def
      DEFAULT_OPTIONS_def Let_def)

text \<open>
  C7. After a batch is pushed, the ids tracked are those tracked before together with
  those of the batch. When their number has reached \<open>deduplicationFilterSize\<close>, exactly
  those of them that occur as \<open>event_id\<close> in the entries of the page stay tracked;
  below it, all of them stay. The keys stay distinct and their marks true.
\<close>

theorem dedup_filter_pruning:
  assumes "awaits s k EventsGet" and "distinct (map fst (dedupHash s))"
    and "entries page = Some es" and "validated page"
    and "news = filter (\<lambda>e. \<not> seen (dedupHash s) (event_id e)) es" and "news \<noteq> []"
    and "marked = set (map fst (dedupHash s)) \<union> event_id ` set news"
    and "s' = stream_step parse s (Fetched k (Inr page))"
  shows "distinct (map fst (dedupHash s')) \<and>
    (int (card marked) \<ge> deduplicationFilterSize (options s) \<longrightarrow>
       set (map fst (dedupHash s')) = {i \<in> marked. i \<in> event_id ` set es}) \<and>
    (int (card marked) < deduplicationFilterSize (options s) \<longrightarrow>
       set (map fst (dedupHash s')) = marked) \<and>
    (list_all snd (dedupHash s) \<longrightarrow> list_all snd (dedupHash s'))"
proof -
  let ?a = "answered k s"
  let ?c = "EventsGet # chains_around s k"
  have fr: "fresh_entries ?a es = news" "fresh_entries ?a es \<noteq> []"
    using assms(5,6) by (simp_all add: fresh_entries_def)
  have s': "s' = fst (fetchEvents_then parse ?c ?a page)"
    using assms(1,8) batch_outcome [OF assms(3,4) fr(2), of parse ?c]
    by (simp add: settle_Inr)
  have m: "marked = set (map fst (dedupHash ?a)) \<union> event_id ` set (fresh_entries ?a es)"
    using assms(7) fr(1) by simp
  have d: "distinct (map fst (dedupHash ?a))" using assms(2) by simp
  show ?thesis
    using batch_dedup [OF assms(3,4) fr(2) d m, of parse ?c] unfolding s' by simp
qed

text \<open>
  The same at sample values: X and B are tracked and the page is [B, C]; with a filter size
  of 3 the stream forgets X, with a filter size of 4 it does not.
\<close>

theorem dedup_filter_pruning_witness:
  "awaits (tracking 3) 0 EventsGet \<and> distinct (map fst (dedupHash (tracking 3))) \<and>
   validated page_BC \<and>
   filter (\<lambda>e. \<not> seen (dedupHash (tracking 3)) (event_id e)) [evB, evC] = [evC] \<and>
   set (map fst (dedupHash (stream_step sample_parse (tracking 3) (Fetched 0 (Inr page_BC))))) =
     {''B'', ''C''} \<and>
   set (map fst (dedupHash (stream_step sample_parse (tracking 4) (Fetched 0 (Inr page_BC))))) =
     {''X'', ''B'', ''C''}"
  using
    dedup_filter_pruning [of "tracking 3" 0 page_BC "[evB, evC]" "[evC]"
      "{''X'', ''B'', ''C''}" "stream_step sample_parse (tracking 3) (Fetched 0 (Inr page_BC))"
      sample_parse]
    dedup_filter_pruning [of "tracking 4" 0 page_BC "[evB, evC]" "[evC]"
      "{''X'', ''B'', ''C''}" "stream_step sample_parse (tracking 4) (Fetched 0 (Inr page_BC))"
      sample_parse]
  by (simp add: tracking_def fetching_eq awaits_def page_BC_def validated_def truthy_def seen_def
      evB_def evC_def) auto

text \<open>
  C8. A long poll on a stream that is not destroyed. With the attempt counter above
  \<open>max_retries\<close>, the stream asks for new long poll info and sends no long poll. Otherwise
  it counts the attempt and sends one request with the timeout \<open>retry_timeout * 1000\<close>:
  when the URL has a question mark after its first character, the request goes to the
  part before it, with every parameter that \<^verbatim>\<open>qs.parse\<close> finds after it kept as it is,
  but for \<open>stream_position\<close>, which is set to the current position; otherwise the
  request goes to the URL as it is, with \<open>stream_position\<close> as the only parameter.
\<close>

theorem long_poll_request:
  assumes "\<not> destroyed s" and "longPollInfo s = Some info"
  shows
    "(longPollRetries s > max_retries info \<longrightarrow>
        doLongPoll parse ctx s = getLongPollInfo ctx s \<and>
        actions (fst (doLongPoll parse ctx s)) = actions s @ [GetLongPollInfoRequest] \<and>
        longPollRetries (fst (doLongPoll parse ctx s)) = longPollRetries s) \<and>
     (longPollRetries s \<le> max_retries info \<longrightarrow>
        (\<exists>u q. actions (fst (doLongPoll parse ctx s)) =
                 actions s @ [LongPollRequest u q (retry_timeout info * 1000)] \<and>
           longPollRetries (fst (doLongPoll parse ctx s)) = longPollRetries s + 1 \<and>
           map_of q ''stream_position'' = Some (Position (streamPosition s)) \<and>
           (if 0 < indexOf (url info) CHR ''?''
            then \<exists>rest. url info = u @ ''?'' @ rest \<and> CHR ''?'' \<notin> set u \<and>
                   (\<forall>key. key \<noteq> ''stream_position'' \<longrightarrow> map_of q key = map_of (parse rest) key)
            else u = url info \<and> q = [(''stream_position'', Position (streamPosition s))])))"
proof (intro conjI impI)
  assume over: "max_retries info < longPollRetries s"
  then show "doLongPoll parse ctx s = getLongPollInfo ctx s"
    using assms by (simp add: doLongPoll_def)
  then show "actions (fst (doLongPoll parse ctx s)) = actions s @ [GetLongPollInfoRequest]"
    and "longPollRetries (fst (doLongPoll parse ctx s)) = longPollRetries s"
    using assms by (simp_all add: getLongPollInfo_def)
next
  assume le: "longPollRetries s \<le> max_retries info"
  let ?i = "indexOf (url info) CHR ''?''"
  let ?u = "if 0 < ?i then take (nat ?i) (url info) else url info"
  let ?q0 = "if 0 < ?i then parse (drop (nat (?i + 1)) (url info)) else []"
  let ?q = "AList.update ''stream_position'' (Position (streamPosition s)) ?q0"
  have run: "doLongPoll parse ctx s =
      (send LongPoll ctx (LongPollRequest ?u ?q (retry_timeout info * 1000))
         (s\<lparr>longPollRetries := longPollRetries s + 1\<rparr>), Pending)"
    using assms le by (simp add: doLongPoll_def Let_def)
  have pos: "map_of ?q ''stream_position'' = Some (Position (streamPosition s))"
    by (simp add: AList.update_conv')
  have rest: "if 0 < ?i
      then \<exists>rest. url info = ?u @ ''?'' @ rest \<and> CHR ''?'' \<notin> set ?u \<and>
             (\<forall>key. key \<noteq> ''stream_position'' \<longrightarrow> map_of ?q key = map_of (parse rest) key)
      else ?u = url info \<and> ?q = [(''stream_position'', Position (streamPosition s))]"
  proof (cases "0 < ?i")
    case True
    have "url info = ?u @ ''?'' @ drop (nat (?i + 1)) (url info)"
      using indexOf_positive(1) [OF True] True by simp
    moreover have "CHR ''?'' \<notin> set ?u"
      using indexOf_positive(2) [OF True] True by simp
    moreover have "\<forall>key. key \<noteq> ''stream_position'' \<longrightarrow>
        map_of ?q key = map_of (parse (drop (nat (?i + 1)) (url info))) key"
      using True by (simp add: AList.update_conv')
    ultimately show ?thesis using True by (simp only: if_True) blast
  next
    case False
    then show ?thesis by simp
  qed
  show "\<exists>u q. actions (fst (doLongPoll parse ctx s)) =
                 actions s @ [LongPollRequest u q (retry_timeout info * 1000)] \<and>
           longPollRetries (fst (doLongPoll parse ctx s)) = longPollRetries s + 1 \<and>
           map_of q ''stream_position'' = Some (Position (streamPosition s)) \<and>
           (if 0 < indexOf (url info) CHR ''?''
            then \<exists>rest. url info = u @ ''?'' @ rest \<and> CHR ''?'' \<notin> set u \<and>
                   (\<forall>key. key \<noteq> ''stream_position'' \<longrightarrow> map_of q key = map_of (parse rest) key)
            else u = url info \<and> q = [(''stream_position'', Position (streamPosition s))])"
    using pos rest by (intro exI [of _ ?u] exI [of _ ?q]) (simp add: run)
qed

text \<open>
  The same at sample values: the URL carries \<open>channel=12\<close>; at eleven attempts against a
  limit of ten the stream re-discovers.
\<close>

theorem long_poll_request_witness:
  "\<not> destroyed fetching \<and> longPollInfo fetching = Some info0 \<and>
   longPollRetries fetching \<le> max_retries info0 \<and>
   actions (fst (doLongPoll sample_parse [] fetching)) =
     actions fetching @
       [LongPollRequest ''https://poll.example/subscribe''
          [(''channel'', Single ''12''), (''stream_position'', Position (Str ''1''))] 610000] \<and>
   longPollRetries (fst (doLongPoll sample_parse [] fetching)) = 2 \<and>
   actions (fst (doLongPoll sample_parse [] (fetching\<lparr>longPollRetries := 11\<rparr>))) =
     actions fetching @ [GetLongPollInfoRequest]"
  using long_poll_request [of fetching info0 sample_parse "[]"]
    long_poll_request [of "fetching\<lparr>longPollRetries := 11\<rparr>" info0 sample_parse "[]"]
  by (simp add: fetching_eq doLongPoll_def getLongPollInfo_def indexOf_def sample_parse_def
      info0_def Let_def)

text \<open>
  C9, amended. In every state \<open>s\<close> the stream reaches from its construction:
  \<^verbatim>\<open>destroy\<close> twice is \<^verbatim>\<open>destroy\<close> once; after it the flag is set and no retry timer is
  armed (at most one ever is, the one \<^verbatim>\<open>_retryTimer\<close> holds). On a stream not yet
  destroyed it calls \<^verbatim>\<open>clearTimeout\<close> once, and schedules one close notification where
  the \<^verbatim>\<open>destroy\<close> is the one of the file, and none where it is the one of \<^verbatim>\<open>Readable\<close>. On
  a destroyed stream it does nothing, and so do \<^verbatim>\<open>getLongPollInfo\<close>, \<^verbatim>\<open>doLongPoll\<close>,
  \<^verbatim>\<open>fetchEvents\<close> (each resolves to false), \<^verbatim>\<open>retryPollInfo\<close>, \<^verbatim>\<open>_read\<close>, the answer to
  a long poll, whatever it is, and a timer that fires; whatever happens to it later, it
  stays destroyed with no timer armed. Nothing is said here of the answer to a discovery
  or to a fetch.
\<close>

theorem destroy_idempotent_and_guards:
  assumes "s = stream_run parse (new_stream native position opts) es"
  shows
    "destroy (destroy s) = destroy s \<and> destroyed (destroy s) \<and> timers (destroy s) = [] \<and>
     length (timers s) \<le> 1 \<and> set (timers s) \<subseteq> set_option (retryTimer s) \<and>
     readableDestroy s = native \<and>
     (\<not> destroyed s \<longrightarrow>
        actions (destroy s) =
          actions s @ (if native then [] else [NextTickEmitClose]) @ [ClearTimeout (retryTimer s)] \<and>
        retryTimer (destroy s) = None) \<and>
     (destroyed s \<longrightarrow>
        destroy s = s \<and>
        getLongPollInfo ctx s = (s, Settled False) \<and>
        doLongPoll parse ctx s = (s, Settled False) \<and>
        fetchEvents ctx s = (s, Settled False) \<and>
        doLongPoll_then parse ctx s data = (s, Settled False) \<and>
        retryPollInfo s = s \<and>
        stream_step parse s Read = s\<lparr>reading := True\<rparr> \<and>
        (awaits s k LongPoll \<longrightarrow> stream_step parse s (Polled k r) = answered k s) \<and>
        stream_step parse s (TimerFired h) = s \<and>
        destroyed (stream_run parse s es') \<and> timers (stream_run parse s es') = [])"
proof -
  have ser: "serial s"
    unfolding assms by (rule serial_run) (rule serial_new)
  have nat: "readableDestroy s = native"
    unfolding assms by (simp add: run_readableDestroy new_stream_def)
  have one: "length (timers s) \<le> 1" "set (timers s) \<subseteq> set_option (retryTimer s)"
    using ser by (auto simp: serial_def)
  have none: "timers (destroy s) = []"
    using serial_destroy [OF ser]
    by (simp add: serial_def destroy_def destroy_polyfill_def readable_destroy_def
        internal_destroy_def split: if_splits)
  have fresh: "\<not> destroyed s \<Longrightarrow>
      actions (destroy s) =
        actions s @ (if native then [] else [NextTickEmitClose]) @ [ClearTimeout (retryTimer s)] \<and>
      retryTimer (destroy s) = None"
    using nat
    by (simp add: destroy_def destroy_polyfill_def readable_destroy_def internal_destroy_def)
  have polled: "destroyed s \<Longrightarrow> awaits s k LongPoll \<Longrightarrow>
      stream_step parse s (Polled k r) = answered k s"
    by (cases r)
      (simp_all add: settle_def doLongPoll_then_def doLongPoll_catch_def retryPollInfo_def)
  have later: "destroyed s \<Longrightarrow>
      destroyed (stream_run parse s es') \<and> timers (stream_run parse s es') = []"
    using serial_run [OF ser, of parse es'] run_destroyed [of s parse es']
    by (simp add: serial_def)
  have idle: "destroyed s \<Longrightarrow> timers s = []"
    using ser by (simp add: serial_def)
  have guards: "destroyed s \<Longrightarrow>
      destroy s = s \<and> getLongPollInfo ctx s = (s, Settled False) \<and>
      doLongPoll parse ctx s = (s, Settled False) \<and> fetchEvents ctx s = (s, Settled False) \<and>
      doLongPoll_then parse ctx s data = (s, Settled False) \<and> retryPollInfo s = s \<and>
      stream_step parse s Read = s\<lparr>reading := True\<rparr> \<and> stream_step parse s (TimerFired h) = s"
    using idle
    by (simp add: destroy_def destroy_polyfill_def readable_destroy_def getLongPollInfo_def
        doLongPoll_def fetchEvents_def doLongPoll_then_def retryPollInfo_def internal_read_def)
  have "destroyed (destroy s)"
    by (simp add: destroy_def destroy_polyfill_def readable_destroy_def internal_destroy_def)
  then show ?thesis
    using one none nat fresh polled later guards by (simp add: destroy_twice)
qed

text \<open>
  The same at sample values: a stream with a retry timer armed, where \<^verbatim>\<open>Readable\<close> has its
  own \<^verbatim>\<open>destroy\<close> and where it has none, and a stream destroyed while its long poll is out.
\<close>

theorem destroy_idempotent_and_guards_witness:
  "\<not> destroyed retrying \<and> retryTimer retrying = Some 0 \<and> timers retrying = [0] \<and>
   destroyed (destroy retrying) \<and>
   actions (destroy retrying) = actions retrying @ [ClearTimeout (Some 0)] \<and>
   timers (destroy retrying) = [] \<and> retryTimer (destroy retrying) = None \<and>
   actions (destroy (destroy retrying)) = actions (destroy retrying) \<and>
   \<not> destroyed legacy \<and> timers legacy = [0] \<and>
   actions (destroy legacy) = actions legacy @ [NextTickEmitClose, ClearTimeout (Some 0)] \<and>
   timers (destroy legacy) = [] \<and>
   actions (destroy (destroy legacy)) = actions (destroy legacy) \<and>
   destroyed (destroy polling) \<and> awaits (destroy polling) 0 LongPoll \<and>
   actions (stream_step sample_parse (destroy polling) (Polled 0 (Inr new_change))) =
     actions (destroy polling) \<and>
   actions (stream_step sample_parse (destroy polling) Read) = actions (destroy polling) \<and>
   timers (stream_run sample_parse (destroy polling) [Polled 0 (Inl timed_out), Read]) = []"
  using
    destroy_idempotent_and_guards [of retrying sample_parse True "Str ''1''" DEFAULT_OPTIONS
      "[Listen True, Read, Discovered 0 (Inr info0), Polled 0 (Inl timed_out)]"
      "[]" new_change 0 "Inr new_change" 0 "[]"]
    destroy_idempotent_and_guards [of legacy sample_parse False "Str ''1''" DEFAULT_OPTIONS
      "[Listen True, Read, Discovered 0 (Inr info0), Polled 0 (Inl timed_out)]"
      "[]" new_change 0 "Inr new_change" 0 "[]"]
    destroy_idempotent_and_guards [of "destroy polling" sample_parse True "Str ''1''" DEFAULT_OPTIONS
      "[Listen True, Read, Discovered 0 (Inr info0), Destroy]"
      "[]" new_change 0 "Inr new_change" 0 "[Polled 0 (Inl timed_out), Read]"]
  by (simp add: retrying_def [symmetric] legacy_def [symmetric] polling_destroyed)
     (simp add: retrying_eq legacy_eq polling_eq destroy_def destroy_polyfill_def
      readable_destroy_def internal_destroy_def act_def awaits_def answered_def)

text \<open>
  C9 as stated fails: on a destroyed stream, the answer to a fetch that was out moves the
  stream position and pushes the events, and the failure of a discovery that was out emits
  the error.
\<close>

theorem destroyed_stream_counterexample:
  "destroyed (destroy fetching) \<and> awaits (destroy fetching) 0 EventsGet \<and>
   streamPosition (destroy fetching) = Str ''1'' \<and>
   streamPosition (stream_step sample_parse (destroy fetching) (Fetched 0 (Inr page_ABAC))) = Str ''2'' \<and>
   pushed (actions (stream_step sample_parse (destroy fetching) (Fetched 0 (Inr page_ABAC)))) =
     [evA, evB, evA, evC] \<and>
   destroyed (destroy discovering) \<and> awaits (destroy discovering) 0 Discovery \<and>
   errorListeners (destroy discovering) \<and>
   emitted (actions (stream_step sample_parse (destroy discovering) (Discovered 0 (Inl timed_out)))) =
     [timed_out]"
  by (simp add: fetching_eq discovering_eq destroy_def destroy_polyfill_def readable_destroy_def
      internal_destroy_def awaits_def answered_def chains_around_def settle_def
      fetchEvents_then_def getLongPollInfo_catch_def emit_error_def retryPollInfo_def
      page_ABAC_def truthy_def seen_def push_event_def act_def pushed_def emitted_def evA_def
      evB_def evC_def DEFAULT_OPTIONS_def Let_def)

end
